theory Spec2Isabelle
  imports Main
begin

section \<open>Data model of JiraScraper.ts\<close>

text \<open>
  The counters of \<^verbatim>\<open>JiraScraper.stats\<close>. The field \<^verbatim>\<open>totalIssues\<close> of the
  statistics is named \<open>issuesTotal\<close> here, since the checkpoint has a field of the
  same name.
\<close>

record Stats =
  issuesTotal :: nat
  successfulScrapes :: nat
  failedScrapes :: nat
  retriedRequests :: nat

record ScraperConfig =
  jiraBaseUrl :: string
  projects :: "string list"
  maxConcurrent :: nat
  maxResults :: nat
  requestTimeout :: nat
  outputDir :: string
  checkpointDir :: string
  rateLimitDelay :: nat

record Checkpoint =
  project :: string
  lastProcessedIndex :: nat
  totalIssues :: nat
  completed :: bool
  timestamp :: string

text \<open>
  \<^verbatim>\<open>JiraApiResponse\<close>, with the issue type left open: the orchestration reads only
  \<^verbatim>\<open>total\<close> and \<^verbatim>\<open>issues\<close>.
\<close>

record 'i JiraApiResponse =
  resp_startAt :: nat
  resp_maxResults :: nat
  total :: nat
  issues :: "'i list"

text \<open>
  What the code reads of an \<^verbatim>\<open>AxiosError\<close>: \<^verbatim>\<open>error.response?.status\<close>
  (\<open>None\<close> when no response was received), the error code and the message.
\<close>

record AxiosError =
  response_status :: "nat option"
  code :: string
  message :: string

section \<open>The retry condition handed to axios-retry\<close>

text \<open>
  \<^verbatim>\<open>retryCondition\<close> of the constructor (JiraScraper.ts, lines 148-155). The counter is
  incremented first, then the verdict is computed. The library predicate
  \<^verbatim>\<open>axiosRetry.isNetworkOrIdempotentRequestError\<close> belongs to the axios-retry package
  and is a parameter. \<^verbatim>\<open>error.response?.status ?? 0\<close> is \<open>0\<close> without a response.
\<close>

definition retryCondition :: "(AxiosError \<Rightarrow> bool) \<Rightarrow> Stats \<Rightarrow> AxiosError \<Rightarrow> Stats \<times> bool" where
  "retryCondition isNetworkOrIdempotentRequestError st error =
     (st\<lparr>retriedRequests := retriedRequests st + 1\<rparr>,
      isNetworkOrIdempotentRequestError error
      \<or> response_status error = Some 429
      \<or> (case response_status error of None \<Rightarrow> 0 | Some s \<Rightarrow> s) \<ge> 500)"

section \<open>The checkpoint store\<close>

text \<open>
  A checkpoint file holds the JSON text written by \<^verbatim>\<open>JSON.stringify\<close>. File
  contents are modelled as the JSON value that the text denotes: \<open>JSON_stringify\<close> lists
  the fields of the object in the order in which the object literal declares them, and
  \<open>JSON_parse\<close> reads them back. A file whose content is not a checkpoint object makes
  \<open>JSON_parse\<close> return \<open>None\<close>, which \<open>loadCheckpoint\<close> below surfaces as the thrown
  \<^verbatim>\<open>SyntaxError\<close>.
\<close>

datatype json = JNumber nat | JString string | JBool bool | JObject "(string \<times> json) list"

definition JSON_stringify :: "Checkpoint \<Rightarrow> json" where
  "JSON_stringify c = JObject
     [(''project'', JString (project c)),
      (''lastProcessedIndex'', JNumber (lastProcessedIndex c)),
      (''totalIssues'', JNumber (totalIssues c)),
      (''completed'', JBool (completed c)),
      (''timestamp'', JString (timestamp c))]"

fun JSON_parse :: "json \<Rightarrow> Checkpoint option" where
  "JSON_parse (JObject kvs) =
     (case (map_of kvs ''project'', map_of kvs ''lastProcessedIndex'', map_of kvs ''totalIssues'',
            map_of kvs ''completed'', map_of kvs ''timestamp'') of
        (Some (JString p), Some (JNumber l), Some (JNumber t), Some (JBool c), Some (JString ts)) \<Rightarrow>
          Some \<lparr>project = p, lastProcessedIndex = l, totalIssues = t, completed = c, timestamp = ts\<rparr>
      | _ \<Rightarrow> None)"
| "JSON_parse _ = None"

text \<open>Errors that leave \<^verbatim>\<open>scrapeProject\<close>.\<close>

datatype error = FetchError AxiosError | SyntaxError string | ENOENT string

text \<open>
  Observable actions, in the order in which they happen: the request issued by
  \<^verbatim>\<open>client.get\<close> (project, \<^verbatim>\<open>startAt\<close>), the events emitted on the
  \<^verbatim>\<open>EventEmitter\<close>, the file written by \<^verbatim>\<open>writeFile\<close>, the pacing delay,
  the opening log line of \<^verbatim>\<open>scrapeProject\<close> and the report of \<^verbatim>\<open>printStats\<close>.
\<close>

datatype event =
    Get string nat
  | Emit_fetch_success string nat nat
  | Emit_error string nat
  | Emit_project_error string
  | WriteFile string json
  | Delay nat
  | Log_start string
  | PrintStats Stats

text \<open>
  The state the scraper works on: its statistics, the files of the checkpoint directory
  (path to content), the output files (path to the lines appended so far), the log of
  observable actions and the reading of the system clock (\<^verbatim>\<open>new Date().toISOString()\<close>).
\<close>

record 'd world =
  stats :: Stats
  files :: "string \<rightharpoonup> json"
  sink :: "string \<Rightarrow> 'd list"
  events :: "event list"
  now :: string

definition emit :: "event \<Rightarrow> 'd world \<Rightarrow> 'd world" where
  "emit e w = w\<lparr>events := events w @ [e]\<rparr>"

text \<open>
  \<^verbatim>\<open>path.join(dir, file)\<close> of Node (POSIX): the arguments that are not empty are put
  together with a separator and the result is normalised. \<open>segments\<close> splits a path at
  the separators; \<open>resolve\<close> goes through the segments as \<^verbatim>\<open>normalizeString\<close> does,
  dropping empty segments and \<^verbatim>\<open>.\<close>, and letting \<^verbatim>\<open>..\<close> cancel the segment kept
  last (\<open>res\<close> holds the segments kept, last first); \<open>join_segs\<close> puts the separators
  back.
\<close>

fun segments :: "string \<Rightarrow> string list" where
  "segments [] = [[]]"
| "segments (c # cs) =
     (if c = CHR ''/'' then [] # segments cs
      else case segments cs of s # ss \<Rightarrow> (c # s) # ss | [] \<Rightarrow> [[c]])"

fun resolve :: "bool \<Rightarrow> string list \<Rightarrow> string list \<Rightarrow> string list" where
  "resolve allowAboveRoot res [] = res"
| "resolve allowAboveRoot res (s # ss) =
     (if s = [] \<or> s = ''.'' then resolve allowAboveRoot res ss
      else if s = ''..'' then
        (case res of
           r # rs \<Rightarrow>
             if r \<noteq> ''..'' then resolve allowAboveRoot rs ss
             else resolve allowAboveRoot (if allowAboveRoot then s # res else res) ss
         | [] \<Rightarrow> resolve allowAboveRoot (if allowAboveRoot then [s] else []) ss)
      else resolve allowAboveRoot (s # res) ss)"

fun join_segs :: "string list \<Rightarrow> string" where
  "join_segs [] = []"
| "join_segs [s] = s"
| "join_segs (s # t # ss) = s @ ''/'' @ join_segs (t # ss)"

definition normalize :: "string \<Rightarrow> string" where
  "normalize path =
     (if path = [] then ''.''
      else
        (let isAbsolute = (hd path = CHR ''/'');
             trailingSeparator = (last path = CHR ''/'');
             p = join_segs (rev (resolve (\<not> isAbsolute) [] (segments path)))
         in if p = [] then (if isAbsolute then ''/'' else if trailingSeparator then ''./'' else ''.'')
            else (if isAbsolute then ''/'' else []) @ p @ (if trailingSeparator then ''/'' else [])))"

definition path_join :: "string \<Rightarrow> string \<Rightarrow> string" where
  "path_join dir file =
     (if dir = [] \<and> file = [] then ''.''
      else normalize (if dir = [] then file else if file = [] then dir else dir @ ''/'' @ file))"

definition loadCheckpoint :: "ScraperConfig \<Rightarrow> string \<Rightarrow> 'd world \<Rightarrow> error + Checkpoint" where
  "loadCheckpoint cfg proj w =
     (let checkpointFile = path_join (checkpointDir cfg) (proj @ ''.json'') in
      case files w checkpointFile of
        Some data \<Rightarrow>
          (case JSON_parse data of
             Some c \<Rightarrow> Inr c
           | None \<Rightarrow> Inl (SyntaxError checkpointFile))
      | None \<Rightarrow>
          Inr \<lparr>project = proj, lastProcessedIndex = 0, totalIssues = 0, completed = False,
               timestamp = now w\<rparr>)"

text \<open>
  \<open>saveCheckpoint\<close> is the save whose \<^verbatim>\<open>writeFile\<close> fulfils: the file holds the new text
  and the write is logged. \<open>save\<close> below adds the case in which \<^verbatim>\<open>writeFile\<close> rejects.
\<close>

definition saveCheckpoint :: "ScraperConfig \<Rightarrow> Checkpoint \<Rightarrow> 'd world \<Rightarrow> 'd world" where
  "saveCheckpoint cfg checkpoint w =
     (let checkpointFile = path_join (checkpointDir cfg) (project checkpoint @ ''.json'');
          data = JSON_stringify checkpoint
      in emit (WriteFile checkpointFile data) (w\<lparr>files := (files w)(checkpointFile \<mapsto> data)\<rparr>))"

text \<open>
  The outcome of the write. \<^verbatim>\<open>writeFile\<close> rejects with \<^verbatim>\<open>ENOENT\<close> when the directory
  that the file lies in does not exist, and \<^verbatim>\<open>saveCheckpoint\<close> then throws; otherwise the
  effect is \<open>saveCheckpoint\<close> above. \<open>dirs\<close> are the directories that exist, by normalised
  path; the current directory and the root always do. The constructor (lines 128-132) makes
  sure of the output and the checkpoint directory, and nothing in the scraper creates a
  directory after that. The other ways in which \<^verbatim>\<open>writeFile\<close> can reject (no permission,
  no space left, a name that the file system refuses) are faults of the environment and are
  left out. \<open>parent\<close> is the directory of a normalised path, and \<open>dir_prefix dir\<close> is
  what \<open>path_join dir\<close> puts in front of a plain file name.
\<close>

definition dir_prefix :: "string \<Rightarrow> string" where
  "dir_prefix dir =
     (if dir = [] then []
      else (if hd dir = CHR ''/'' then ''/'' else []) @
           (let kept = rev (resolve (hd dir \<noteq> CHR ''/'') [] (segments dir))
            in if kept = [] then [] else join_segs kept @ ''/''))"

definition parent :: "string \<Rightarrow> string" where
  "parent file =
     (let segs = segments file in
      if length segs \<le> 1 then ''.''
      else if join_segs (butlast segs) = [] then ''/'' else join_segs (butlast segs))"

definition dir_exists :: "string set \<Rightarrow> string \<Rightarrow> bool" where
  "dir_exists dirs d = (d = ''.'' \<or> d = ''/'' \<or> d \<in> dirs)"

definition mkdirs :: "ScraperConfig \<Rightarrow> string set" where
  "mkdirs cfg = {path_join (outputDir cfg) ''.'', path_join (checkpointDir cfg) ''.''}"

definition save :: "string set \<Rightarrow> ScraperConfig \<Rightarrow> Checkpoint \<Rightarrow> 'd world \<Rightarrow> error + 'd world" where
  "save dirs cfg checkpoint w =
     (let checkpointFile = path_join (checkpointDir cfg) (project checkpoint @ ''.json'') in
      if dir_exists dirs (parent checkpointFile) then Inr (saveCheckpoint cfg checkpoint w)
      else Inl (ENOENT checkpointFile))"

text \<open>
  A series of saves, each with its own outcome: a save that throws leaves the files as they
  are and the caller goes on to the next.
\<close>

fun saves :: "string set \<Rightarrow> ScraperConfig \<Rightarrow> Checkpoint list \<Rightarrow> 'd world \<Rightarrow> 'd world" where
  "saves dirs cfg [] w = w"
| "saves dirs cfg (c # cs) w =
     (case save dirs cfg c w of
        Inr w1 \<Rightarrow> saves dirs cfg cs w1
      | Inl e \<Rightarrow> saves dirs cfg cs w)"

section \<open>Fetching and processing one page\<close>

text \<open>
  What \<^verbatim>\<open>this.client.get\<close> gives back to \<^verbatim>\<open>fetchIssues\<close> once the axios-retry
  interceptor is done with the request: the response data or the error it rejects
  with, and the number of times the interceptor consulted \<open>retryCondition\<close> meanwhile
  (each consultation adds one to \<^verbatim>\<open>stats.retriedRequests\<close>).
  In \<^verbatim>\<open>fetchIssues\<close> a rejected request goes through \<^verbatim>\<open>handleFetchError\<close>, which
  logs, emits the \<^verbatim>\<open>error\<close> event and leaves the error to be thrown.
\<close>

record 'i reply =
  checks :: nat
  outcome :: "AxiosError + 'i JiraApiResponse"

definition fetchIssues ::
  "string \<Rightarrow> nat \<Rightarrow> 'i reply \<Rightarrow> 'd world \<Rightarrow> 'd world \<times> (AxiosError + 'i JiraApiResponse)" where
  "fetchIssues projectKey startAt r w =
     (let w1 = emit (Get projectKey startAt) w;
          w2 = w1\<lparr>stats := (stats w1)\<lparr>retriedRequests := retriedRequests (stats w1) + checks r\<rparr>\<rparr>
      in case outcome r of
           Inr data \<Rightarrow> (emit (Emit_fetch_success projectKey startAt (length (issues data))) w2, Inr data)
         | Inl err \<Rightarrow> (emit (Emit_error projectKey startAt) w2, Inl err))"

text \<open>
  \<^verbatim>\<open>processIssue\<close>: the field mapping inside the \<^verbatim>\<open>try\<close> block is the parameter
  \<open>transform\<close>, \<open>None\<close> when it throws; a successful mapping counts the issue.
\<close>

definition processIssue :: "('i \<Rightarrow> 'd option) \<Rightarrow> Stats \<Rightarrow> 'i \<Rightarrow> Stats \<times> 'd option" where
  "processIssue transform st issue =
     (case transform issue of
        Some trainingData \<Rightarrow> (st\<lparr>issuesTotal := issuesTotal st + 1\<rparr>, Some trainingData)
      | None \<Rightarrow> (st, None))"

text \<open>
  \<^verbatim>\<open>Promise.all(issues.map(...))\<close>: the results in the order of the issues. This is the
  sequential reference; the limiter is modelled in the section on the concurrency gate.
\<close>

fun processAll :: "('i \<Rightarrow> 'd option) \<Rightarrow> Stats \<Rightarrow> 'i list \<Rightarrow> Stats \<times> 'd option list" where
  "processAll transform st [] = (st, [])"
| "processAll transform st (issue # rest) =
     (case processIssue transform st issue of
        (st1, r) \<Rightarrow> (case processAll transform st1 rest of (st2, rs) \<Rightarrow> (st2, r # rs)))"

text \<open>The loop writing the JSONL file (lines 213-220).\<close>

fun writeAll :: "string \<Rightarrow> 'd option list \<Rightarrow> 'd world \<Rightarrow> 'd world" where
  "writeAll outputFile [] w = w"
| "writeAll outputFile (Some d # rest) w =
     writeAll outputFile rest
       (w\<lparr>sink := (sink w)(outputFile := sink w outputFile @ [d]),
          stats := (stats w)\<lparr>successfulScrapes := successfulScrapes (stats w) + 1\<rparr>\<rparr>)"
| "writeAll outputFile (None # rest) w =
     writeAll outputFile rest
       (w\<lparr>stats := (stats w)\<lparr>failedScrapes := failedScrapes (stats w) + 1\<rparr>\<rparr>)"

section \<open>The orchestrator\<close>

text \<open>
  The \<^verbatim>\<open>while (hasMore)\<close> loop of \<^verbatim>\<open>scrapeProject\<close>. The replies of the remote are
  consumed one per iteration; the loop need not end (the remote may report a larger
  total with every page), so the list of replies is the fuel: when it is used up the
  request has been issued and the result is \<open>None\<close>. \<open>Some (Inl e)\<close> is the rethrown
  error, \<open>Some (Inr ())\<close> the normal return. The test
  \<^verbatim>\<open>!response || !response.issues || response.issues.length === 0\<close> is the test for an
  empty page, the response being typed. \<^verbatim>\<open>appendFile\<close> and \<^verbatim>\<open>writeFile\<close> are
  taken to succeed. The local variable \<^verbatim>\<open>totalIssues\<close> is the total of the response at
  hand wherever it is read.
\<close>

fun scrapeLoop ::
  "ScraperConfig \<Rightarrow> ('i \<Rightarrow> 'd option) \<Rightarrow> string \<Rightarrow> nat \<Rightarrow> 'i reply list \<Rightarrow> 'd world
   \<Rightarrow> 'd world \<times> 'i reply list \<times> (error + unit) option" where
  "scrapeLoop cfg transform projectKey startAt [] w = (emit (Get projectKey startAt) w, [], None)"
| "scrapeLoop cfg transform projectKey startAt (r # rs) w =
     (case fetchIssues projectKey startAt r w of
        (w1, Inl err) \<Rightarrow> (w1, rs, Some (Inl (FetchError err)))
      | (w1, Inr response) \<Rightarrow>
          if issues response = [] then (w1, rs, Some (Inr ()))
          else
            (let outputFile = path_join (outputDir cfg) (projectKey @ ''.jsonl'');
                 (st2, processedData) = processAll transform (stats w1) (issues response);
                 w2 = writeAll outputFile processedData (w1\<lparr>stats := st2\<rparr>);
                 startAt' = startAt + length (issues response);
                 w3 = saveCheckpoint cfg
                        \<lparr>project = projectKey, lastProcessedIndex = startAt',
                         totalIssues = total response, completed = (startAt' \<ge> total response),
                         timestamp = now w2\<rparr> w2
             in if startAt' < total response
                then scrapeLoop cfg transform projectKey startAt' rs (emit (Delay (rateLimitDelay cfg)) w3)
                else (w3, rs, Some (Inr ()))))"

definition scrapeProject ::
  "ScraperConfig \<Rightarrow> ('i \<Rightarrow> 'd option) \<Rightarrow> string \<Rightarrow> 'i reply list \<Rightarrow> 'd world
   \<Rightarrow> 'd world \<times> 'i reply list \<times> (error + unit) option" where
  "scrapeProject cfg transform projectKey rs w =
     (let w0 = emit (Log_start projectKey) w in
      case loadCheckpoint cfg projectKey w0 of
        Inl e \<Rightarrow> (w0, rs, Some (Inl e))
      | Inr checkpoint \<Rightarrow>
          if completed checkpoint then (w0, rs, Some (Inr ()))
          else scrapeLoop cfg transform projectKey (lastProcessedIndex checkpoint) rs w0)"

text \<open>
  The \<^verbatim>\<open>for\<close> loop of \<^verbatim>\<open>scrapeProjects\<close> with its \<^verbatim>\<open>try/catch\<close>, then
  \<^verbatim>\<open>printStats\<close>.
\<close>

fun scrapeEach ::
  "ScraperConfig \<Rightarrow> ('i \<Rightarrow> 'd option) \<Rightarrow> string list \<Rightarrow> 'i reply list \<Rightarrow> 'd world
   \<Rightarrow> 'd world \<times> 'i reply list \<times> unit option" where
  "scrapeEach cfg transform [] rs w = (w, rs, Some ())"
| "scrapeEach cfg transform (p # ps) rs w =
     (case scrapeProject cfg transform p rs w of
        (w1, rs1, None) \<Rightarrow> (w1, rs1, None)
      | (w1, rs1, Some (Inl e)) \<Rightarrow> scrapeEach cfg transform ps rs1 (emit (Emit_project_error p) w1)
      | (w1, rs1, Some (Inr u)) \<Rightarrow> scrapeEach cfg transform ps rs1 w1)"

definition printStats :: "'d world \<Rightarrow> 'd world" where
  "printStats w = emit (PrintStats (stats w)) w"

definition scrapeProjects ::
  "ScraperConfig \<Rightarrow> ('i \<Rightarrow> 'd option) \<Rightarrow> 'i reply list \<Rightarrow> 'd world
   \<Rightarrow> 'd world \<times> 'i reply list \<times> unit option" where
  "scrapeProjects cfg transform rs w =
     (case scrapeEach cfg transform (projects cfg) rs w of
        (w1, rs1, Some u) \<Rightarrow> (printStats w1, rs1, Some ())
      | (w1, rs1, None) \<Rightarrow> (w1, rs1, None))"

text \<open>
  Projections of the log: the offsets requested for a collection, the checkpoints written,
  the collections whose processing was started, and the part of the log that a run added.
\<close>

fun offsets :: "string \<Rightarrow> event list \<Rightarrow> nat list" where
  "offsets p [] = []"
| "offsets p (Get q n # es) = (if q = p then n # offsets p es else offsets p es)"
| "offsets p (e # es) = offsets p es"

fun saved :: "event list \<Rightarrow> Checkpoint list" where
  "saved [] = []"
| "saved (WriteFile f data # es) =
     (case JSON_parse data of Some c \<Rightarrow> c # saved es | None \<Rightarrow> saved es)"
| "saved (e # es) = saved es"

fun attempted :: "event list \<Rightarrow> string list" where
  "attempted [] = []"
| "attempted (Log_start p # es) = p # attempted es"
| "attempted (e # es) = attempted es"

definition since :: "'d world \<Rightarrow> 'd world \<Rightarrow> event list" where
  "since w w' = drop (length (events w)) (events w')"

section \<open>The retry layer\<close>

text \<open>
  Modelled from the spec: the interceptor that \<^verbatim>\<open>axiosRetry(this.client, ...)\<close>
  installs and the function \<^verbatim>\<open>axiosRetry.exponentialDelay\<close> belong to the axios-retry
  package and are not among the sources. Section 4.1 gives the classifier, section 4.2 the
  loop: attempt the call, classify the outcome, on RETRYABLE wait
  \<open>base * 2^(attempt-1)\<close> (attempt counted from 1) and retry, on FATAL surface the error
  at once, and give up when the retries are used up. The configuration is the one of the
  source: \<^verbatim>\<open>retries: 5\<close> (line 146) bounds the retries that follow the first request,
  \<open>retryCondition\<close> above is consulted for every failed request, and
  \<^verbatim>\<open>onRetry\<close> (line 156) emits the \<^verbatim>\<open>retry\<close> event with the retry count.
\<close>

datatype http_outcome = Status nat | Transport string

datatype verdict = SUCCESS | RETRYABLE | FATAL

fun error_of :: "http_outcome \<Rightarrow> AxiosError" where
  "error_of (Status s) = \<lparr>response_status = Some s, code = ''ERR_BAD_RESPONSE'', message = []\<rparr>"
| "error_of (Transport c) = \<lparr>response_status = None, code = c, message = []\<rparr>"

fun is_success :: "http_outcome \<Rightarrow> bool" where
  "is_success (Status s) = (200 \<le> s \<and> s \<le> 299)"
| "is_success (Transport c) = False"

definition classify :: "(AxiosError \<Rightarrow> bool) \<Rightarrow> Stats \<Rightarrow> http_outcome \<Rightarrow> Stats \<times> verdict" where
  "classify lib st out =
     (if is_success out then (st, SUCCESS)
      else case retryCondition lib st (error_of out) of
             (st1, True) \<Rightarrow> (st1, RETRYABLE)
           | (st1, False) \<Rightarrow> (st1, FATAL))"

definition retries :: nat where
  "retries = 5"

definition exponentialDelay :: "nat \<Rightarrow> nat \<Rightarrow> nat" where
  "exponentialDelay base retryNumber = base * 2 ^ (retryNumber - 1)"

datatype retry_event = Request | Emit_retry nat | Backoff nat

text \<open>
  One call of \<^verbatim>\<open>client.get\<close>: the outcomes of the successive HTTP requests are taken
  from the list; when the list is used up the last request is still unanswered and the
  result is \<open>None\<close>.
\<close>

fun client_get ::
  "(AxiosError \<Rightarrow> bool) \<Rightarrow> nat \<Rightarrow> nat \<Rightarrow> http_outcome list \<Rightarrow> Stats \<times> retry_event list
   \<Rightarrow> (Stats \<times> retry_event list) \<times> (AxiosError + http_outcome) option" where
  "client_get lib base retryCount [] (st, log) = ((st, log @ [Request]), None)"
| "client_get lib base retryCount (out # outs) (st, log) =
     (case classify lib st out of
        (st1, SUCCESS) \<Rightarrow> ((st1, log @ [Request]), Some (Inr out))
      | (st1, FATAL) \<Rightarrow> ((st1, log @ [Request]), Some (Inl (error_of out)))
      | (st1, RETRYABLE) \<Rightarrow>
          if retryCount < retries
          then client_get lib base (retryCount + 1) outs
                 (st1, log @ [Request, Emit_retry (retryCount + 1),
                              Backoff (exponentialDelay base (retryCount + 1))])
          else ((st1, log @ [Request]), Some (Inl (error_of out))))"

fun delays :: "retry_event list \<Rightarrow> nat list" where
  "delays [] = []"
| "delays (Backoff d # es) = d # delays es"
| "delays (e # es) = delays es"

fun requests :: "retry_event list \<Rightarrow> nat" where
  "requests [] = 0"
| "requests (Request # es) = Suc (requests es)"
| "requests (e # es) = requests es"

section \<open>The concurrency gate\<close>

text \<open>
  Modelled from the spec: the limiter made by \<^verbatim>\<open>pLimit(this.config.maxConcurrent)\<close>
  belongs to the p-limit package and is not among the sources. Section 4.3: at most
  \<open>maxInFlight\<close> tasks execute at a time, the others queue in submission order and start
  as slots free, and the results correspond to the tasks by index whatever the order of
  completion. The tasks are the calls \<^verbatim>\<open>this.processIssue(issue)\<close> of line 209. Tasks
  \<open>started g\<close> and above are still queued, \<open>running g\<close> are in flight, and \<open>pick\<close>
  chooses at each step which of the tasks in flight completes next.
\<close>

record 'd gate =
  started :: nat
  running :: "nat list"
  settled :: "nat \<rightharpoonup> 'd option"
  gstats :: Stats

function runBounded ::
  "nat \<Rightarrow> (nat \<Rightarrow> nat) \<Rightarrow> ('i \<Rightarrow> 'd option) \<Rightarrow> 'i list \<Rightarrow> nat \<Rightarrow> 'd gate \<Rightarrow> 'd gate" where
  "runBounded maxInFlight pick transform xs t g =
     (if started g < length xs \<and> length (running g) < maxInFlight then
        runBounded maxInFlight pick transform xs (t + 1)
          (g\<lparr>started := started g + 1, running := running g @ [started g]\<rparr>)
      else if running g \<noteq> [] then
        (let j = running g ! (pick t mod length (running g));
             (st1, r) = processIssue transform (gstats g) (xs ! j)
         in runBounded maxInFlight pick transform xs (t + 1)
              (g\<lparr>running := remove1 j (running g), settled := (settled g)(j \<mapsto> r), gstats := st1\<rparr>))
      else g)"
  by pat_completeness auto
termination
  by (relation "measure (\<lambda>(m, pick, tr, xs, t, g). 2 * (length xs - started g) + length (running g))")
     (auto simp: length_remove1)

text \<open>
  \<^verbatim>\<open>Promise.all\<close> over the limited tasks: it resolves, with the results by index, once
  every task has settled; \<open>None\<close> when some task never does.
\<close>

definition gated ::
  "nat \<Rightarrow> (nat \<Rightarrow> nat) \<Rightarrow> ('i \<Rightarrow> 'd option) \<Rightarrow> Stats \<Rightarrow> 'i list \<Rightarrow> (Stats \<times> 'd option list) option" where
  "gated maxInFlight pick transform st xs =
     (let g = runBounded maxInFlight pick transform xs 0
                \<lparr>started = 0, running = [], settled = Map.empty, gstats = st\<rparr>
      in if list_all (\<lambda>i. settled g i \<noteq> None) [0..<length xs]
         then Some (gstats g, map (\<lambda>i. the (settled g i)) [0..<length xs])
         else None)"

section \<open>Concrete inputs\<close>

text \<open>The defaults of the constructor (lines 115-125) and the initial counters (lines 105-110).\<close>

definition default_config :: ScraperConfig where
  "default_config =
     \<lparr>jiraBaseUrl = ''https://issues.apache.org/jira'',
      projects = [''HADOOP'', ''KAFKA'', ''SPARK''],
      maxConcurrent = 5, maxResults = 100, requestTimeout = 30000,
      outputDir = ''./output'', checkpointDir = ''./checkpoints'', rateLimitDelay = 1000\<rparr>"

definition initial_stats :: Stats where
  "initial_stats = \<lparr>issuesTotal = 0, successfulScrapes = 0, failedScrapes = 0, retriedRequests = 0\<rparr>"

text \<open>A state with no file written yet, at clock reading \<open>t\<close>.\<close>

definition fresh_world :: "string \<Rightarrow> 'd world" where
  "fresh_world t = \<lparr>stats = initial_stats, files = Map.empty, sink = (\<lambda>f. []), events = [], now = t\<rparr>"

text \<open>A reply that carries a page of issues and reports \<open>n\<close> as the total; no retry was needed.\<close>

definition page :: "nat \<Rightarrow> 'i list \<Rightarrow> 'i reply" where
  "page n xs = \<lparr>checks = 0, outcome = Inr \<lparr>resp_startAt = 0, resp_maxResults = 100, total = n, issues = xs\<rparr>\<rparr>"

text \<open>A reply that rejects with a response of the given status.\<close>

definition failure :: "nat \<Rightarrow> 'i reply" where
  "failure s = \<lparr>checks = 1, outcome = Inl \<lparr>response_status = Some s, code = ''ERR_BAD_REQUEST'', message = []\<rparr>\<rparr>"

text \<open>
  Whether some reply fetched so far reported a total greater than zero (the condition
  "a value totalRecords > 0 was observed" of the data model, in the words of the spec).
\<close>

fun observed_positive_total :: "'i reply list \<Rightarrow> bool" where
  "observed_positive_total [] = False"
| "observed_positive_total (r # rs) =
     (case outcome r of
        Inr response \<Rightarrow> 0 < total response \<or> observed_positive_total rs
      | Inl err \<Rightarrow> observed_positive_total rs)"

section \<open>Auxiliary facts\<close>

lemma JSON_roundtrip [simp]: "JSON_parse (JSON_stringify c) = Some c"
  by (simp add: JSON_stringify_def)

lemma events_writeAll [simp]: "events (writeAll f ds w) = events w"
  by (induction f ds w rule: writeAll.induct) simp_all

lemma files_writeAll [simp]: "files (writeAll f ds w) = files w"
  by (induction f ds w rule: writeAll.induct) simp_all

lemma now_writeAll [simp]: "now (writeAll f ds w) = now w"
  by (induction f ds w rule: writeAll.induct) simp_all

lemma since_append: "events w' = events w @ new \<Longrightarrow> since w w' = new"
  by (simp add: since_def)

lemma offsets_append [simp]: "offsets p (xs @ ys) = offsets p xs @ offsets p ys"
  by (induction p xs rule: offsets.induct) simp_all

lemma saved_append [simp]: "saved (xs @ ys) = saved xs @ saved ys"
  by (induction xs rule: saved.induct) (simp_all split: option.splits)

lemma attempted_append [simp]: "attempted (xs @ ys) = attempted xs @ attempted ys"
  by (induction xs rule: attempted.induct) simp_all

text \<open>The four ways one iteration of the loop can go.\<close>

lemma scrapeLoop_error:
  assumes "outcome r = Inl err"
  shows "\<exists>w'. scrapeLoop cfg tr p s (r # rs) w = (w', rs, Some (Inl (FetchError err)))
           \<and> events w' = events w @ [Get p s, Emit_error p s]"
  using assms by (simp add: fetchIssues_def emit_def Let_def)

lemma scrapeLoop_empty:
  assumes "outcome r = Inr response" "issues response = []"
  shows "\<exists>w'. scrapeLoop cfg tr p s (r # rs) w = (w', rs, Some (Inr ()))
           \<and> events w' = events w @ [Get p s, Emit_fetch_success p s 0]"
  using assms by (simp add: fetchIssues_def emit_def Let_def)

lemma scrapeLoop_last:
  assumes "outcome r = Inr response" "issues response \<noteq> []"
    and "\<not> s + length (issues response) < total response"
  shows "\<exists>w'. scrapeLoop cfg tr p s (r # rs) w = (w', rs, Some (Inr ()))
           \<and> events w' = events w @
                [Get p s, Emit_fetch_success p s (length (issues response)),
                 WriteFile (path_join (checkpointDir cfg) (p @ ''.json''))
                   (JSON_stringify \<lparr>project = p, lastProcessedIndex = s + length (issues response),
                      totalIssues = total response, completed = True, timestamp = now w\<rparr>)]"
  using assms
  by (simp add: fetchIssues_def emit_def Let_def saveCheckpoint_def split: prod.splits)

lemma scrapeLoop_more:
  assumes "outcome r = Inr response" "issues response \<noteq> []"
    and "s + length (issues response) < total response"
  shows "\<exists>w'. scrapeLoop cfg tr p s (r # rs) w
                = scrapeLoop cfg tr p (s + length (issues response)) rs w'
           \<and> events w' = events w @
                [Get p s, Emit_fetch_success p s (length (issues response)),
                 WriteFile (path_join (checkpointDir cfg) (p @ ''.json''))
                   (JSON_stringify \<lparr>project = p, lastProcessedIndex = s + length (issues response),
                      totalIssues = total response, completed = False, timestamp = now w\<rparr>),
                 Delay (rateLimitDelay cfg)]
           \<and> now w' = now w"
  using assms
  by (simp add: fetchIssues_def emit_def Let_def saveCheckpoint_def split: prod.splits)
     (intro allI impI exI conjI, rule refl, simp_all)

declare scrapeLoop.simps(2) [simp del]

lemma scrapeLoop_offsets:
  "\<exists>new rest. events (fst (scrapeLoop cfg tr p s rs w)) = events w @ new
      \<and> offsets p new = s # rest \<and> (\<forall>x\<in>set rest. s \<le> x) \<and> sorted (s # rest)"
proof (induction rs arbitrary: s w)
  case Nil
  show ?case by (simp add: emit_def)
next
  case (Cons r rs)
  show ?case
  proof (cases "outcome r")
    case (Inl err)
    from scrapeLoop_error [OF this, of cfg tr p s rs w] show ?thesis by auto
  next
    case (Inr response)
    consider (empty) "issues response = []"
      | (last) "issues response \<noteq> []" "\<not> s + length (issues response) < total response"
      | (more) "issues response \<noteq> []" "s + length (issues response) < total response"
      by blast
    then show ?thesis
    proof cases
      case empty
      from scrapeLoop_empty [OF Inr this, of cfg tr p s rs w] show ?thesis by auto
    next
      case last
      from scrapeLoop_last [OF Inr this, of cfg tr p rs w] show ?thesis by auto
    next
      case more
      define s' where "s' = s + length (issues response)"
      from scrapeLoop_more [OF Inr more, of cfg tr p rs w] obtain w' pre where
        step: "scrapeLoop cfg tr p s (r # rs) w = scrapeLoop cfg tr p s' rs w'"
        and pre: "events w' = events w @ pre" "offsets p pre = [s]"
        unfolding s'_def by auto
      from Cons.IH [of s' w'] obtain new rest where
        IH: "events (fst (scrapeLoop cfg tr p s' rs w')) = events w' @ new"
            "offsets p new = s' # rest" "\<forall>x\<in>set rest. s' \<le> x" "sorted (s' # rest)" by blast
      have "s \<le> s'" by (simp add: s'_def)
      with IH pre step show ?thesis
        by (intro exI [of _ "pre @ new"] exI [of _ "s' # rest"]) auto
    qed
  qed
qed

section \<open>Paths of checkpoint files\<close>

lemma segments_ne [simp]: "segments s \<noteq> []"
  by (induction s) (auto split: list.splits)

lemma segments_plain: "CHR ''/'' \<notin> set f \<Longrightarrow> segments f = [f]"
  by (induction f) auto

lemma segments_append_plain:
  "CHR ''/'' \<notin> set f \<Longrightarrow> segments (d @ CHR ''/'' # f) = segments d @ [f]"
proof (induction d)
  case Nil
  then show ?case by (simp add: segments_plain)
next
  case (Cons c cs)
  then show ?case by (cases "segments cs") auto
qed

lemma join_segs_segments [simp]: "join_segs (segments s) = s"
proof (induction s)
  case Nil
  show ?case by simp
next
  case (Cons c cs)
  show ?case
  proof (cases "segments cs")
    case Nil
    then show ?thesis using segments_ne [of cs] by simp
  next
    case (Cons x xs)
    with Cons.IH show ?thesis by (cases xs) auto
  qed
qed

lemma segments_no_slash: "\<forall>s\<in>set (segments p). CHR ''/'' \<notin> set s"
  by (induction p) (auto split: list.splits)

lemma join_segs_snoc:
  "join_segs (xs @ [f]) = (if xs = [] then f else join_segs xs @ ''/'' @ f)"
  by (induction xs rule: join_segs.induct) auto

lemma join_segs_ne:
  "xs \<noteq> [] \<Longrightarrow> \<forall>x\<in>set xs. x \<noteq> [] \<Longrightarrow> join_segs xs \<noteq> []"
  by (induction xs rule: join_segs.induct) auto


lemma resolve_skip:
  "s = [] \<or> s = ''.'' \<Longrightarrow> resolve a res (s # ss) = resolve a res ss"
  by (simp only: resolve.simps if_True)

lemma resolve_push:
  "s \<noteq> [] \<Longrightarrow> s \<noteq> ''.'' \<Longrightarrow> s \<noteq> ''..'' \<Longrightarrow> resolve a res (s # ss) = resolve a (s # res) ss"
  by (simp only: resolve.simps simp_thms if_False)

lemma resolve_up:
  "resolve a res (''..'' # ss) =
     (case res of
        r # rs \<Rightarrow>
          if r \<noteq> ''..'' then resolve a rs ss
          else resolve a (if a then ''..'' # res else res) ss
      | [] \<Rightarrow> resolve a (if a then [''..''] else []) ss)"
  by (subst resolve.simps) simp

declare resolve.simps(2) [simp del]

lemma resolve_append:
  "resolve a res (xs @ ys) = resolve a (resolve a res xs) ys"
proof (induction xs arbitrary: res)
  case Nil
  show ?case by simp
next
  case (Cons s xs)
  consider (skip) "s = [] \<or> s = ''.''" | (up) "s = ''..''"
    | (push) "s \<noteq> []" "s \<noteq> ''.''" "s \<noteq> ''..''" by blast
  then show ?case
  proof cases
    case skip
    then show ?thesis using Cons.IH by (simp add: resolve_skip)
  next
    case up
    then show ?thesis using Cons.IH by (cases a; cases res; simp add: resolve_up)
  next
    case push
    then show ?thesis using Cons.IH by (simp add: resolve_push)
  qed
qed

lemma resolve_kept:
  "\<forall>r\<in>set res. r \<noteq> [] \<Longrightarrow> \<forall>r\<in>set (resolve a res ss). r \<noteq> []"
proof (induction ss arbitrary: res)
  case Nil
  then show ?case by simp
next
  case (Cons s ss)
  consider (skip) "s = [] \<or> s = ''.''" | (up) "s = ''..''"
    | (push) "s \<noteq> []" "s \<noteq> ''.''" "s \<noteq> ''..''" by blast
  then show ?case
  proof cases
    case skip
    then show ?thesis using Cons.IH [OF Cons.prems] by (simp add: resolve_skip)
  next
    case up
    show ?thesis
    proof (cases res)
      case Nil
      have "\<forall>r\<in>set (if a then [''..''] else []). r \<noteq> []" by simp
      from Cons.IH [OF this] show ?thesis using up Nil by (simp add: resolve_up)
    next
      case (Cons r rs)
      with Cons.prems have rs: "\<forall>r\<in>set rs. r \<noteq> []" by simp
      have "\<forall>r\<in>set (if a then ''..'' # res else res). r \<noteq> []" using Cons.prems by simp
      from Cons.IH [OF this] Cons.IH [OF rs] show ?thesis using up Cons by (simp add: resolve_up)
    qed
  next
    case push
    have "\<forall>r\<in>set (s # res). r \<noteq> []" using push Cons.prems by simp
    from Cons.IH [OF this] show ?thesis using push by (simp add: resolve_push)
  qed
qed


lemma plain_hd_last:
  assumes "f \<noteq> []" "CHR ''/'' \<notin> set f"
  shows "hd f \<noteq> CHR ''/''" and "last f \<noteq> CHR ''/''"
proof -
  from assms(1) have "hd f \<in> set f" and "last f \<in> set f" by simp_all
  with assms(2) show "hd f \<noteq> CHR ''/''" and "last f \<noteq> CHR ''/''" by auto
qed

lemma normalize_joined:
  assumes "d \<noteq> []" "x \<noteq> []" "last x \<noteq> CHR ''/''"
  shows "normalize (d @ CHR ''/'' # x) =
      (let p = join_segs (rev (resolve (hd d \<noteq> CHR ''/'') [] (segments (d @ CHR ''/'' # x))))
       in if p = [] then (if hd d = CHR ''/'' then ''/'' else ''.'')
          else (if hd d = CHR ''/'' then ''/'' else []) @ p)"
proof -
  have "last (d @ CHR ''/'' # x) \<noteq> CHR ''/''" using assms(2,3) by simp
  moreover have "hd (d @ CHR ''/'' # x) = hd d" using assms(1) by simp
  moreover have "d @ CHR ''/'' # x \<noteq> []" by simp
  ultimately show ?thesis
    unfolding normalize_def Let_def by (simp only: if_False simp_thms append_Nil2)
qed

lemma path_join_plain:
  assumes "f \<noteq> []" "f \<noteq> ''.''" "f \<noteq> ''..''" "CHR ''/'' \<notin> set f"
  shows "path_join d f = dir_prefix d @ f"
proof (cases "d = []")
  case True
  note hl = plain_hd_last [OF assms(1,4)]
  have seg: "segments f = [f]" by (rule segments_plain [OF assms(4)])
  have res: "resolve True [] [f] = [f]" using assms by (simp add: resolve_push)
  have "normalize f = f"
    unfolding normalize_def Let_def seg using hl assms(1) by (simp add: res)
  then show ?thesis using True assms(1) by (simp add: path_join_def dir_prefix_def)
next
  case False
  define kept where "kept = resolve (hd d \<noteq> CHR ''/'') [] (segments d)"
  note hl = plain_hd_last [OF assms(1,4)]
  have seg: "segments (d @ CHR ''/'' # f) = segments d @ [f]"
    by (rule segments_append_plain [OF assms(4)])
  have res: "resolve (hd d \<noteq> CHR ''/'') [] (segments d @ [f]) = f # kept"
    unfolding resolve_append kept_def [symmetric] using assms by (simp add: resolve_push)
  have js: "join_segs (rev kept @ [f]) = (if rev kept = [] then f else join_segs (rev kept) @ ''/'' @ f)"
    by (rule join_segs_snoc)
  have jne: "join_segs (rev kept @ [f]) \<noteq> []" unfolding js using assms(1) by simp
  have "normalize (d @ CHR ''/'' # f) = (if hd d = CHR ''/'' then ''/'' else []) @ join_segs (rev kept @ [f])"
    unfolding normalize_joined [OF False assms(1) hl(2)] seg res Let_def using jne by simp
  moreover have "path_join d f = normalize (d @ CHR ''/'' # f)"
    using False assms(1) by (simp add: path_join_def)
  moreover have "dir_prefix d @ f = (if hd d = CHR ''/'' then ''/'' else []) @ join_segs (rev kept @ [f])"
    unfolding js using False by (simp add: dir_prefix_def kept_def Let_def)
  ultimately show ?thesis by simp
qed

lemma path_join_dot:
  assumes "d \<noteq> []"
  shows "path_join d ''.'' =
      (let p = join_segs (rev (resolve (hd d \<noteq> CHR ''/'') [] (segments d)))
       in if p = [] then (if hd d = CHR ''/'' then ''/'' else ''.'')
          else (if hd d = CHR ''/'' then ''/'' else []) @ p)"
proof -
  have seg: "segments (d @ CHR ''/'' # ''.'') = segments d @ [''.'']"
    by (rule segments_append_plain) simp
  have res: "resolve (hd d \<noteq> CHR ''/'') [] (segments d @ [''.''])
      = resolve (hd d \<noteq> CHR ''/'') [] (segments d)"
    unfolding resolve_append by (simp add: resolve_skip)
  have "path_join d ''.'' = normalize (d @ CHR ''/'' # ''.'')"
    using assms by (simp add: path_join_def)
  also have "\<dots> = (let p = join_segs (rev (resolve (hd d \<noteq> CHR ''/'') [] (segments d)))
       in if p = [] then (if hd d = CHR ''/'' then ''/'' else ''.'')
          else (if hd d = CHR ''/'' then ''/'' else []) @ p)"
    unfolding normalize_joined [OF assms, of "''.''", simplified] seg res ..
  finally show ?thesis .
qed


lemma parent_path_join_plain:
  assumes "f \<noteq> []" "f \<noteq> ''.''" "f \<noteq> ''..''" "CHR ''/'' \<notin> set f"
  shows "parent (path_join d f) = path_join d ''.''"
proof (cases "d = []")
  case True
  have "path_join d f = f" using True path_join_plain [OF assms, of d] by (simp add: dir_prefix_def)
  then have "parent (path_join d f) = ''.''"
    by (simp add: parent_def segments_plain [OF assms(4)])
  moreover have "path_join d ''.'' = ''.''"
    using True by (simp add: path_join_def normalize_def resolve_skip)
  ultimately show ?thesis by simp
next
  case False
  define kept where "kept = rev (resolve (hd d \<noteq> CHR ''/'') [] (segments d))"
  have dot: "path_join d ''.'' =
      (if join_segs kept = [] then (if hd d = CHR ''/'' then ''/'' else ''.'')
       else (if hd d = CHR ''/'' then ''/'' else []) @ join_segs kept)"
    unfolding path_join_dot [OF False] kept_def Let_def ..
  have pre: "path_join d f =
      (if hd d = CHR ''/'' then ''/'' else []) @ (if kept = [] then [] else join_segs kept @ ''/'') @ f"
    unfolding path_join_plain [OF assms] using False by (simp add: dir_prefix_def kept_def Let_def)
  have ne: "join_segs kept \<noteq> []" if "kept \<noteq> []"
  proof (rule join_segs_ne [OF that])
    have "\<forall>r\<in>set (resolve (hd d \<noteq> CHR ''/'') [] (segments d)). r \<noteq> []"
      by (rule resolve_kept) simp
    then show "\<forall>x\<in>set kept. x \<noteq> []" by (simp add: kept_def)
  qed
  show ?thesis
  proof (cases "kept = []")
    case True
    show ?thesis
    proof (cases "hd d = CHR ''/''")
      case abs: True
      have "path_join d f = [] @ CHR ''/'' # f" using pre True abs by simp
      then have "segments (path_join d f) = [[], f]"
        by (simp only: segments_append_plain [OF assms(4)]) simp
      then have "parent (path_join d f) = ''/''" by (simp add: parent_def)
      then show ?thesis using dot True abs by simp
    next
      case rel: False
      have "path_join d f = f" using pre True rel by simp
      then have "parent (path_join d f) = ''.''"
        by (simp add: parent_def segments_plain [OF assms(4)])
      then show ?thesis using dot True rel by simp
    qed
  next
    case nonempty: False
    define x where "x = (if hd d = CHR ''/'' then ''/'' else []) @ join_segs kept"
    have xne: "x \<noteq> []" using ne [OF nonempty] by (simp add: x_def)
    have "path_join d f = x @ CHR ''/'' # f" using pre nonempty by (simp add: x_def)
    then have "segments (path_join d f) = segments x @ [f]"
      by (simp only: segments_append_plain [OF assms(4)])
    then have "parent (path_join d f) = x"
      using xne by (simp add: parent_def)
    then show ?thesis using dot ne [OF nonempty] by (simp add: x_def)
  qed
qed

lemma plain_json:
  assumes "CHR ''/'' \<notin> set p"
  shows "p @ ''.json'' \<noteq> []" "p @ ''.json'' \<noteq> ''.''" "p @ ''.json'' \<noteq> ''..''"
    "CHR ''/'' \<notin> set (p @ ''.json'')"
proof -
  show "p @ ''.json'' \<noteq> []" by simp
  show "p @ ''.json'' \<noteq> ''.''"
  proof
    assume "p @ ''.json'' = ''.''"
    then have "length (p @ ''.json'') = length ''.''" by (rule arg_cong)
    then show False by simp
  qed
  show "p @ ''.json'' \<noteq> ''..''"
  proof
    assume "p @ ''.json'' = ''..''"
    then have "length (p @ ''.json'') = length ''..''" by (rule arg_cong)
    then show False by simp
  qed
  show "CHR ''/'' \<notin> set (p @ ''.json'')" using assms by simp
qed

lemma checkpoint_file_inject:
  assumes "CHR ''/'' \<notin> set p" "CHR ''/'' \<notin> set q"
    and "path_join d (p @ ''.json'') = path_join d (q @ ''.json'')"
  shows "p = q"
proof -
  have "dir_prefix d @ p @ ''.json'' = dir_prefix d @ q @ ''.json''"
    using assms(3)
    unfolding path_join_plain [OF plain_json [OF assms(1)]] path_join_plain [OF plain_json [OF assms(2)]] .
  then show ?thesis by simp
qed


section \<open>The checkpoint store: load after save\<close>

lemma now_saves [simp]: "now (saves dirs cfg cs w) = now w"
  by (induction cs arbitrary: w) (simp_all add: save_def saveCheckpoint_def emit_def Let_def)

lemma files_saves_other:
  "\<forall>c\<in>set cs. path_join (checkpointDir cfg) (project c @ ''.json'') \<noteq> file \<Longrightarrow>
     files (saves dirs cfg cs w) file = files w file"
proof (induction cs arbitrary: w)
  case Nil
  show ?case by simp
next
  case (Cons c cs)
  then have other: "path_join (checkpointDir cfg) (project c @ ''.json'') \<noteq> file"
    and rest: "\<forall>c\<in>set cs. path_join (checkpointDir cfg) (project c @ ''.json'') \<noteq> file"
    by simp_all
  show ?case
  proof (cases "save dirs cfg c w")
    case (Inl e)
    then show ?thesis using Cons.IH [OF rest] by simp
  next
    case (Inr w1)
    then have "w1 = saveCheckpoint cfg c w" by (simp add: save_def Let_def split: if_splits)
    then have "files w1 file = files w file"
      using other by (simp add: saveCheckpoint_def emit_def Let_def)
    then show ?thesis using Inr Cons.IH [OF rest, of w1] by simp
  qed
qed

text \<open>
  Claim C6, as the code has it. When the save of a checkpoint \<open>c\<close> succeeds, loading its
  collection right afterwards returns \<open>c\<close> itself; the save is not rejected for want of a
  directory when the identifier has no path separator in it and the checkpoint directory
  exists. Loading a collection
  whose identifier has no separator and for which there is no checkpoint file returns the
  zero state (index 0, total 0, not completed, stamped with the current clock reading), and
  that remains so after any series of saves made for other such collections.
\<close>

theorem checkpoint_roundtrip:
  "(save dirs cfg c w = Inr w' \<longrightarrow> loadCheckpoint cfg (project c) w' = Inr c)
   \<and> (CHR ''/'' \<notin> set (project c) \<and> dir_exists dirs (path_join (checkpointDir cfg) ''.'') \<longrightarrow>
        save dirs cfg c w = Inr (saveCheckpoint cfg c w))
   \<and> (CHR ''/'' \<notin> set p \<and> files w (path_join (checkpointDir cfg) (p @ ''.json'')) = None
        \<and> (\<forall>c'\<in>set cs. CHR ''/'' \<notin> set (project c') \<and> project c' \<noteq> p) \<longrightarrow>
        loadCheckpoint cfg p (saves dirs cfg cs w) =
          Inr \<lparr>project = p, lastProcessedIndex = 0, totalIssues = 0, completed = False,
               timestamp = now w\<rparr>)"
proof (intro conjI impI)
  assume "save dirs cfg c w = Inr w'"
  then have "w' = saveCheckpoint cfg c w"
    by (simp add: save_def Let_def split: if_splits)
  then show "loadCheckpoint cfg (project c) w' = Inr c"
    by (simp add: loadCheckpoint_def saveCheckpoint_def emit_def Let_def)
next
  assume a: "CHR ''/'' \<notin> set (project c) \<and> dir_exists dirs (path_join (checkpointDir cfg) ''.'')"
  then have plain: "CHR ''/'' \<notin> set (project c)" by simp
  have "parent (path_join (checkpointDir cfg) (project c @ ''.json''))
      = path_join (checkpointDir cfg) ''.''"
    by (rule parent_path_join_plain [OF plain_json [OF plain]])
  with a show "save dirs cfg c w = Inr (saveCheckpoint cfg c w)"
    by (simp add: save_def Let_def)
next
  assume a: "CHR ''/'' \<notin> set p \<and> files w (path_join (checkpointDir cfg) (p @ ''.json'')) = None
        \<and> (\<forall>c'\<in>set cs. CHR ''/'' \<notin> set (project c') \<and> project c' \<noteq> p)"
  have "\<forall>c'\<in>set cs. path_join (checkpointDir cfg) (project c' @ ''.json'')
      \<noteq> path_join (checkpointDir cfg) (p @ ''.json'')"
    using a checkpoint_file_inject [of _ p "checkpointDir cfg"] by blast
  then have "files (saves dirs cfg cs w) (path_join (checkpointDir cfg) (p @ ''.json'')) = None"
    using a by (simp add: files_saves_other)
  then show "loadCheckpoint cfg p (saves dirs cfg cs w) =
          Inr \<lparr>project = p, lastProcessedIndex = 0, totalIssues = 0, completed = False,
               timestamp = now w\<rparr>"
    by (simp add: loadCheckpoint_def Let_def)
qed

theorem checkpoint_roundtrip_witness:
  "save (mkdirs default_config) default_config
       \<lparr>project = ''KAFKA'', lastProcessedIndex = 100, totalIssues = 250, completed = False,
        timestamp = ''u''\<rparr> (fresh_world ''t'' :: nat world)
     = Inr (saveCheckpoint default_config
       \<lparr>project = ''KAFKA'', lastProcessedIndex = 100, totalIssues = 250, completed = False,
        timestamp = ''u''\<rparr> (fresh_world ''t''))
   \<and> loadCheckpoint default_config ''KAFKA''
        (saveCheckpoint default_config
           \<lparr>project = ''KAFKA'', lastProcessedIndex = 100, totalIssues = 250, completed = False,
            timestamp = ''u''\<rparr> (fresh_world ''t'' :: nat world))
      = Inr \<lparr>project = ''KAFKA'', lastProcessedIndex = 100, totalIssues = 250, completed = False,
            timestamp = ''u''\<rparr>
   \<and> loadCheckpoint default_config ''HADOOP''
        (saves (mkdirs default_config) default_config
           [\<lparr>project = ''KAFKA'', lastProcessedIndex = 100, totalIssues = 250, completed = False,
             timestamp = ''u''\<rparr>,
            \<lparr>project = ''SPARK'', lastProcessedIndex = 7, totalIssues = 7, completed = True,
             timestamp = ''v''\<rparr>] (fresh_world ''t'' :: nat world))
      = Inr \<lparr>project = ''HADOOP'', lastProcessedIndex = 0, totalIssues = 0, completed = False,
            timestamp = ''t''\<rparr>"
proof -
  define cK where "cK = \<lparr>project = ''KAFKA'', lastProcessedIndex = 100, totalIssues = 250,
    completed = False, timestamp = ''u''\<rparr>"
  define cS where "cS = \<lparr>project = ''SPARK'', lastProcessedIndex = 7, totalIssues = 7,
    completed = True, timestamp = ''v''\<rparr>"
  have ok: "save (mkdirs default_config) default_config cK (fresh_world ''t'' :: nat world)
      = Inr (saveCheckpoint default_config cK (fresh_world ''t''))"
    using checkpoint_roundtrip [where c = cK and dirs = "mkdirs default_config"
        and cfg = default_config and w = "fresh_world ''t'' :: nat world"]
    by (simp add: cK_def dir_exists_def mkdirs_def)
  have rt: "loadCheckpoint default_config ''KAFKA'' (saveCheckpoint default_config cK (fresh_world ''t'' :: nat world))
      = Inr cK"
    using checkpoint_roundtrip [where c = cK and dirs = "mkdirs default_config"
        and cfg = default_config and w = "fresh_world ''t'' :: nat world"
        and w' = "saveCheckpoint default_config cK (fresh_world ''t'')"] ok
    by (simp add: cK_def)
  have other: "loadCheckpoint default_config ''HADOOP''
        (saves (mkdirs default_config) default_config [cK, cS] (fresh_world ''t'' :: nat world))
      = Inr \<lparr>project = ''HADOOP'', lastProcessedIndex = 0, totalIssues = 0, completed = False,
            timestamp = ''t''\<rparr>"
    using checkpoint_roundtrip [where p = "''HADOOP''" and cs = "[cK, cS]"
        and dirs = "mkdirs default_config" and cfg = default_config
        and w = "fresh_world ''t'' :: nat world"]
    by (simp add: cK_def cS_def fresh_world_def)
  from ok rt other show ?thesis unfolding cK_def cS_def by blast
qed

text \<open>
  Claim C6 as stated fails for identifiers with a path separator. The checkpoint of
  \<^verbatim>\<open>A/B\<close> belongs in a sub-directory that nothing creates: the save is rejected and the
  load that follows returns the zero state, not the checkpoint. And since
  \<^verbatim>\<open>path.join\<close> normalises, \<^verbatim>\<open>x/../A\<close> names the file of \<^verbatim>\<open>A\<close>: loading it, with
  no checkpoint ever saved for it, returns the checkpoint of \<^verbatim>\<open>A\<close>.
\<close>

theorem separator_in_identifier:
  "save (mkdirs default_config) default_config
       \<lparr>project = ''A/B'', lastProcessedIndex = 100, totalIssues = 250, completed = False,
        timestamp = ''u''\<rparr> (fresh_world ''t'' :: nat world)
     = Inl (ENOENT ''checkpoints/A/B.json'')
   \<and> loadCheckpoint default_config ''A/B''
        (saves (mkdirs default_config) default_config
           [\<lparr>project = ''A/B'', lastProcessedIndex = 100, totalIssues = 250, completed = False,
             timestamp = ''u''\<rparr>] (fresh_world ''t'' :: nat world))
      = Inr \<lparr>project = ''A/B'', lastProcessedIndex = 0, totalIssues = 0, completed = False,
            timestamp = ''t''\<rparr>
   \<and> loadCheckpoint default_config ''x/../A''
        (saves (mkdirs default_config) default_config
           [\<lparr>project = ''A'', lastProcessedIndex = 100, totalIssues = 250, completed = False,
             timestamp = ''u''\<rparr>] (fresh_world ''t'' :: nat world))
      = Inr \<lparr>project = ''A'', lastProcessedIndex = 100, totalIssues = 250, completed = False,
            timestamp = ''u''\<rparr>"
  by (simp add: save_def saveCheckpoint_def loadCheckpoint_def path_join_def normalize_def
      resolve.simps parent_def dir_exists_def mkdirs_def default_config_def fresh_world_def
      emit_def Let_def JSON_stringify_def)

section \<open>The retry condition\<close>

text \<open>
  Claim C10. Classifying an outcome touches no counter but \<^verbatim>\<open>retriedRequests\<close>; the
  claim adds that the counter moves only when the verdict is "retry". The code increments
  it before it computes the verdict: for a 404 response, which the library predicate does
  not accept, the verdict is \<open>False\<close> and the counter has gone from 0 to 1.
\<close>

theorem retry_counter_bug:
  "retryCondition (\<lambda>e. response_status e = None) initial_stats
     \<lparr>response_status = Some 404, code = ''ERR_BAD_REQUEST'', message = ''Not Found''\<rparr>
   = (\<lparr>issuesTotal = 0, successfulScrapes = 0, failedScrapes = 0, retriedRequests = 1\<rparr>, False)"
  by (simp add: retryCondition_def initial_stats_def)

lemma retryCondition_verdict:
  "snd (retryCondition lib st e)
     = (lib e \<or> response_status e = Some 429 \<or> (\<exists>s\<ge>500. response_status e = Some s))"
  by (cases "response_status e") (simp_all add: retryCondition_def)

text \<open>
  Claim C3. The claim has timeouts among the transport-level failures that are retried.
  The condition has no test of its own for a failure without response: there the verdict is
  the one of the library predicate. axios reports the expiry of the configured
  \<^verbatim>\<open>timeout\<close> as an error without response and with code \<^verbatim>\<open>ECONNABORTED\<close>, which
  the predicate of axios-retry does not accept; with a predicate that agrees with it on this
  error the verdict is \<open>False\<close>, and the timeout is not retried.
\<close>

theorem timeout_not_retried:
  "retryCondition (\<lambda>e. response_status e = None \<and> code e \<noteq> ''ECONNABORTED'') initial_stats
     \<lparr>response_status = None, code = ''ECONNABORTED'', message = ''timeout of 30000ms exceeded''\<rparr>
   = (\<lparr>issuesTotal = 0, successfulScrapes = 0, failedScrapes = 0, retriedRequests = 1\<rparr>, False)"
  by (simp add: retryCondition_def initial_stats_def)

section \<open>Resuming from a checkpoint\<close>

text \<open>
  Claim C1. When the checkpoint file of a collection holds a checkpoint with
  \<open>lastProcessedIndex = k\<close>, \<open>k > 0\<close>, not completed, the first request of the run is issued
  at offset \<open>k\<close>, every later request of the run is at an offset of at least \<open>k\<close>, and the
  offsets never decrease from one request to the next. This holds for every list of
  replies, also when the run is cut short.
\<close>

theorem resume_offsets:
  assumes "files w (path_join (checkpointDir cfg) (p @ ''.json'')) = Some (JSON_stringify c)"
    and "lastProcessedIndex c = k" and "0 < k" and "\<not> completed c"
  shows "\<exists>rest. offsets p (since w (fst (scrapeProject cfg tr p rs w))) = k # rest
           \<and> (\<forall>x\<in>set rest. k \<le> x) \<and> sorted (k # rest)"
proof -
  define w0 :: "'a world" where "w0 = emit (Log_start p) w"
  have run: "scrapeProject cfg tr p rs w = scrapeLoop cfg tr p k rs w0"
    using assms by (simp add: scrapeProject_def loadCheckpoint_def w0_def emit_def Let_def)
  from scrapeLoop_offsets [of cfg tr p k rs w0] obtain new rest where
    new: "events (fst (scrapeLoop cfg tr p k rs w0)) = events w0 @ new"
      and rest: "offsets p new = k # rest" "\<forall>x\<in>set rest. k \<le> x" "sorted (k # rest)" by blast
  have "events (fst (scrapeProject cfg tr p rs w)) = events w @ (Log_start p # new)"
    using run new by (simp add: w0_def emit_def)
  then have "since w (fst (scrapeProject cfg tr p rs w)) = Log_start p # new"
    by (rule since_append)
  with rest show ?thesis by simp
qed

theorem resume_offsets_witness:
  "files (saveCheckpoint default_config
            \<lparr>project = ''P'', lastProcessedIndex = 2, totalIssues = 5, completed = False, timestamp = ''t''\<rparr>
            (fresh_world ''t'' :: nat world))
     (path_join (checkpointDir default_config) (''P'' @ ''.json''))
   = Some (JSON_stringify
            \<lparr>project = ''P'', lastProcessedIndex = 2, totalIssues = 5, completed = False, timestamp = ''t''\<rparr>)
   \<and> offsets ''P''
        (since (saveCheckpoint default_config
                  \<lparr>project = ''P'', lastProcessedIndex = 2, totalIssues = 5, completed = False, timestamp = ''t''\<rparr>
                  (fresh_world ''t''))
           (fst (scrapeProject default_config Some ''P'' [page 5 [3::nat, 4], page 5 [5]]
                  (saveCheckpoint default_config
                     \<lparr>project = ''P'', lastProcessedIndex = 2, totalIssues = 5, completed = False, timestamp = ''t''\<rparr>
                     (fresh_world ''t'')))))
      = [2, 4]"
  using resume_offsets [where cfg = default_config and p = "''P''" and k = 2 and tr = Some
      and rs = "[page 5 [3::nat, 4], page 5 [5]]"
      and c = "\<lparr>project = ''P'', lastProcessedIndex = 2, totalIssues = 5, completed = False, timestamp = ''t''\<rparr>"
      and w = "saveCheckpoint default_config
                 \<lparr>project = ''P'', lastProcessedIndex = 2, totalIssues = 5, completed = False, timestamp = ''t''\<rparr>
                 (fresh_world ''t'')"]
  by (simp add: scrapeProject_def loadCheckpoint_def scrapeLoop.simps fetchIssues_def since_def
      fresh_world_def default_config_def page_def emit_def Let_def saveCheckpoint_def
      processIssue_def)

section \<open>The checkpoint written after each batch\<close>

lemma scrapeLoop_saved:
  "\<exists>new. events (fst (scrapeLoop cfg tr p s rs w)) = events w @ new
      \<and> (\<forall>c\<in>set (saved new). completed c = (totalIssues c \<le> lastProcessedIndex c)
            \<and> 0 < lastProcessedIndex c \<and> project c = p)"
proof (induction rs arbitrary: s w)
  case Nil
  show ?case by (simp add: emit_def)
next
  case (Cons r rs)
  show ?case
  proof (cases "outcome r")
    case (Inl err)
    from scrapeLoop_error [OF this, of cfg tr p s rs w] show ?thesis by auto
  next
    case (Inr response)
    consider (empty) "issues response = []"
      | (last) "issues response \<noteq> []" "\<not> s + length (issues response) < total response"
      | (more) "issues response \<noteq> []" "s + length (issues response) < total response"
      by blast
    then show ?thesis
    proof cases
      case empty
      from scrapeLoop_empty [OF Inr this, of cfg tr p s rs w] show ?thesis by auto
    next
      case last
      from scrapeLoop_last [OF Inr this, of cfg tr p rs w] last show ?thesis by auto
    next
      case more
      define s' where "s' = s + length (issues response)"
      from scrapeLoop_more [OF Inr more, of cfg tr p rs w] obtain w' pre where
        step: "scrapeLoop cfg tr p s (r # rs) w = scrapeLoop cfg tr p s' rs w'"
        and pre: "events w' = events w @ pre"
          "saved pre = [\<lparr>project = p, lastProcessedIndex = s', totalIssues = total response,
                         completed = False, timestamp = now w\<rparr>]"
        unfolding s'_def by auto
      from Cons.IH [of s' w'] obtain new where
        IH: "events (fst (scrapeLoop cfg tr p s' rs w')) = events w' @ new"
            "\<forall>c\<in>set (saved new). completed c = (totalIssues c \<le> lastProcessedIndex c)
                \<and> 0 < lastProcessedIndex c \<and> project c = p" by blast
      have "s' < total response" "0 < s'" using more by (simp_all add: s'_def)
      with IH pre step show ?thesis
        by (intro exI [of _ "pre @ new"]) auto
    qed
  qed
qed

text \<open>
  Claim C5, as the code has it. Every checkpoint that a run of \<^verbatim>\<open>scrapeProject\<close> saves
  has \<open>completed\<close> set exactly when its \<open>lastProcessedIndex\<close> has reached its
  \<open>totalIssues\<close>, the total reported with the page just processed. Whether a total above
  zero was ever reported plays no part.
\<close>

theorem completed_iff_cursor_reaches_total:
  "\<forall>c\<in>set (saved (since w (fst (scrapeProject cfg tr p rs w)))).
      completed c = (totalIssues c \<le> lastProcessedIndex c)"
proof -
  define w0 :: "'a world" where "w0 = emit (Log_start p) w"
  have ev0: "events w0 = events w @ [Log_start p]" by (simp add: w0_def emit_def)
  have "\<exists>new. events (fst (scrapeProject cfg tr p rs w)) = events w @ new
      \<and> (\<forall>c\<in>set (saved new). completed c = (totalIssues c \<le> lastProcessedIndex c))"
  proof (cases "\<exists>c. loadCheckpoint cfg p w0 = Inr c \<and> \<not> completed c")
    case True
    then obtain c where "loadCheckpoint cfg p w0 = Inr c" "\<not> completed c" by blast
    then have run: "scrapeProject cfg tr p rs w = scrapeLoop cfg tr p (lastProcessedIndex c) rs w0"
      by (simp add: scrapeProject_def w0_def Let_def)
    from scrapeLoop_saved [of cfg tr p "lastProcessedIndex c" rs w0] obtain new where
      "events (fst (scrapeLoop cfg tr p (lastProcessedIndex c) rs w0)) = events w0 @ new"
      "\<forall>c\<in>set (saved new). completed c = (totalIssues c \<le> lastProcessedIndex c)" by blast
    with run ev0 show ?thesis by (intro exI [of _ "Log_start p # new"]) simp
  next
    case False
    then have "fst (scrapeProject cfg tr p rs w) = w0"
      by (auto simp: scrapeProject_def w0_def Let_def split: sum.splits)
    with ev0 show ?thesis by (intro exI [of _ "[Log_start p]"]) simp
  qed
  then obtain new where "events (fst (scrapeProject cfg tr p rs w)) = events w @ new"
    and *: "\<forall>c\<in>set (saved new). completed c = (totalIssues c \<le> lastProcessedIndex c)" by blast
  then have "since w (fst (scrapeProject cfg tr p rs w)) = new" by (intro since_append)
  with * show ?thesis by simp
qed

theorem completed_iff_cursor_reaches_total_witness:
  "\<lparr>project = ''P'', lastProcessedIndex = 3, totalIssues = 3, completed = True, timestamp = ''t''\<rparr>
     \<in> set (saved (since (fresh_world ''t'')
          (fst (scrapeProject default_config Some ''P'' [page 3 [1::nat, 2], page 3 [3]] (fresh_world ''t'')))))
   \<and> completed \<lparr>project = ''P'', lastProcessedIndex = 3, totalIssues = 3, completed = True, timestamp = ''t''\<rparr>
      = (totalIssues \<lparr>project = ''P'', lastProcessedIndex = 3, totalIssues = 3, completed = True, timestamp = ''t''\<rparr>
         \<le> lastProcessedIndex \<lparr>project = ''P'', lastProcessedIndex = 3, totalIssues = 3, completed = True, timestamp = ''t''\<rparr>)"
  using completed_iff_cursor_reaches_total [where cfg = default_config and p = "''P''" and tr = Some
      and rs = "[page 3 [1::nat, 2], page 3 [3]]" and w = "fresh_world ''t''"]
  by (simp add: scrapeProject_def loadCheckpoint_def scrapeLoop.simps fetchIssues_def since_def
      fresh_world_def default_config_def page_def emit_def Let_def saveCheckpoint_def
      processIssue_def)

text \<open>
  Claim C5 as stated fails: a first page that is not empty and reports a total of 0 is saved
  with \<open>completed = True\<close>, although no total above zero has been observed.
\<close>

theorem completed_without_positive_total:
  "saved (events (fst (scrapeProject default_config Some ''P'' [page 0 [7::nat]] (fresh_world ''t''))))
     = [\<lparr>project = ''P'', lastProcessedIndex = 1, totalIssues = 0, completed = True, timestamp = ''t''\<rparr>]
   \<and> \<not> observed_positive_total [page 0 [7::nat]]"
  by (simp add: scrapeProject_def loadCheckpoint_def scrapeLoop.simps fetchIssues_def
      fresh_world_def default_config_def page_def emit_def Let_def saveCheckpoint_def
      processIssue_def)

section \<open>A collection of 250 records in pages of 100\<close>



section \<open>Isolation of failures between collections\<close>

lemma scrapeLoop_attempted:
  "\<exists>new. events (fst (scrapeLoop cfg tr p s rs w)) = events w @ new \<and> attempted new = []"
proof (induction rs arbitrary: s w)
  case Nil
  show ?case by (simp add: emit_def)
next
  case (Cons r rs)
  show ?case
  proof (cases "outcome r")
    case (Inl err)
    from scrapeLoop_error [OF this, of cfg tr p s rs w] show ?thesis by auto
  next
    case (Inr response)
    consider (empty) "issues response = []"
      | (last) "issues response \<noteq> []" "\<not> s + length (issues response) < total response"
      | (more) "issues response \<noteq> []" "s + length (issues response) < total response"
      by blast
    then show ?thesis
    proof cases
      case empty
      from scrapeLoop_empty [OF Inr this, of cfg tr p s rs w] show ?thesis by auto
    next
      case last
      from scrapeLoop_last [OF Inr this, of cfg tr p rs w] show ?thesis by auto
    next
      case more
      from scrapeLoop_more [OF Inr more, of cfg tr p rs w] obtain w' pre where
        step: "scrapeLoop cfg tr p s (r # rs) w
                 = scrapeLoop cfg tr p (s + length (issues response)) rs w'"
        and pre: "events w' = events w @ pre" "attempted pre = []"
        by auto
      from Cons.IH [of "s + length (issues response)" w'] obtain new where
        "events (fst (scrapeLoop cfg tr p (s + length (issues response)) rs w')) = events w' @ new"
        "attempted new = []" by blast
      with pre step show ?thesis
        by (intro exI [of _ "pre @ new"]) simp
    qed
  qed
qed

lemma scrapeLoop_starved:
  "snd (snd (scrapeLoop cfg tr p s rs w)) = None \<Longrightarrow> fst (snd (scrapeLoop cfg tr p s rs w)) = []"
proof (induction rs arbitrary: s w)
  case Nil
  show ?case by simp
next
  case (Cons r rs)
  show ?case
  proof (cases "outcome r")
    case (Inl err)
    from scrapeLoop_error [OF this, of cfg tr p s rs w] Cons.prems show ?thesis by auto
  next
    case (Inr response)
    consider (empty) "issues response = []"
      | (last) "issues response \<noteq> []" "\<not> s + length (issues response) < total response"
      | (more) "issues response \<noteq> []" "s + length (issues response) < total response"
      by blast
    then show ?thesis
    proof cases
      case empty
      from scrapeLoop_empty [OF Inr this, of cfg tr p s rs w] Cons.prems show ?thesis by auto
    next
      case last
      from scrapeLoop_last [OF Inr this, of cfg tr p rs w] Cons.prems show ?thesis by auto
    next
      case more
      from scrapeLoop_more [OF Inr more, of cfg tr p rs w] obtain w' where
        step: "scrapeLoop cfg tr p s (r # rs) w
                 = scrapeLoop cfg tr p (s + length (issues response)) rs w'"
        by auto
      with Cons.IH [of "s + length (issues response)" w'] Cons.prems show ?thesis by simp
    qed
  qed
qed

lemma scrapeProject_attempted:
  "\<exists>new. events (fst (scrapeProject cfg tr p rs w)) = events w @ new \<and> attempted new = [p]"
proof -
  define w0 :: "'a world" where "w0 = emit (Log_start p) w"
  have ev0: "events w0 = events w @ [Log_start p]" by (simp add: w0_def emit_def)
  show ?thesis
  proof (cases "\<exists>c. loadCheckpoint cfg p w0 = Inr c \<and> \<not> completed c")
    case True
    then obtain c where "loadCheckpoint cfg p w0 = Inr c" "\<not> completed c" by blast
    then have run: "scrapeProject cfg tr p rs w = scrapeLoop cfg tr p (lastProcessedIndex c) rs w0"
      by (simp add: scrapeProject_def w0_def Let_def)
    from scrapeLoop_attempted [of cfg tr p "lastProcessedIndex c" rs w0] obtain new where
      "events (fst (scrapeLoop cfg tr p (lastProcessedIndex c) rs w0)) = events w0 @ new"
      "attempted new = []" by blast
    with run ev0 show ?thesis by (intro exI [of _ "Log_start p # new"]) simp
  next
    case False
    then have "fst (scrapeProject cfg tr p rs w) = w0"
      by (auto simp: scrapeProject_def w0_def Let_def split: sum.splits)
    with ev0 show ?thesis by (intro exI [of _ "[Log_start p]"]) simp
  qed
qed

lemma scrapeProject_starved:
  "snd (snd (scrapeProject cfg tr p rs w)) = None \<Longrightarrow> fst (snd (scrapeProject cfg tr p rs w)) = []"
  using scrapeLoop_starved [of cfg tr p _ rs "emit (Log_start p) w"]
  by (auto simp: scrapeProject_def Let_def split: sum.splits if_splits)

lemma scrapeProject_fails:
  assumes "isl (outcome r)"
  shows "\<exists>w1 rs1 res. scrapeProject cfg tr p (r # rs) w = (w1, rs1, Some res)
           \<and> (rs1 = r # rs \<or> rs1 = rs)"
proof -
  from assms obtain err where "outcome r = Inl err" by (cases "outcome r") auto
  from scrapeLoop_error [OF this, of cfg tr p _ rs "emit (Log_start p) w"] show ?thesis
    by (auto simp: scrapeProject_def Let_def split: sum.splits) metis
qed

lemma scrapeEach_attempted:
  "snd (snd (scrapeEach cfg tr ps rs w)) = Some u \<Longrightarrow>
     \<exists>new. events (fst (scrapeEach cfg tr ps rs w)) = events w @ new \<and> attempted new = ps"
proof (induction ps arbitrary: rs w)
  case Nil
  show ?case by simp
next
  case (Cons p ps)
  obtain w1 rs1 res where run: "scrapeProject cfg tr p rs w = (w1, rs1, res)"
    by (cases "scrapeProject cfg tr p rs w") auto
  from scrapeProject_attempted [of cfg tr p rs w] run obtain pre where
    pre: "events w1 = events w @ pre" "attempted pre = [p]" by auto
  show ?case
  proof (cases res)
    case None
    with run Cons.prems show ?thesis by simp
  next
    case (Some outcome)
    show ?thesis
    proof (cases outcome)
      case (Inl e)
      define w2 where "w2 = emit (Emit_project_error p) w1"
      have step: "scrapeEach cfg tr (p # ps) rs w = scrapeEach cfg tr ps rs1 w2"
        using run Some Inl by (simp add: w2_def)
      have ev2: "events w2 = events w @ (pre @ [Emit_project_error p])"
        using pre by (simp add: w2_def emit_def)
      from Cons.IH [of rs1 w2] Cons.prems step obtain new where
        "events (fst (scrapeEach cfg tr ps rs1 w2)) = events w2 @ new" "attempted new = ps"
        by auto
      with step ev2 pre show ?thesis
        by (intro exI [of _ "pre @ [Emit_project_error p] @ new"]) simp
    next
      case (Inr v)
      have step: "scrapeEach cfg tr (p # ps) rs w = scrapeEach cfg tr ps rs1 w1"
        using run Some Inr by simp
      from Cons.IH [of rs1 w1] Cons.prems step obtain new where
        "events (fst (scrapeEach cfg tr ps rs1 w1)) = events w1 @ new" "attempted new = ps"
        by auto
      with step pre show ?thesis
        by (intro exI [of _ "pre @ new"]) simp
    qed
  qed
qed

lemma scrapeEach_starved:
  "snd (snd (scrapeEach cfg tr ps rs w)) = None \<Longrightarrow> fst (snd (scrapeEach cfg tr ps rs w)) = []"
proof (induction ps arbitrary: rs w)
  case Nil
  then show ?case by simp
next
  case (Cons p ps)
  obtain w1 rs1 res where run: "scrapeProject cfg tr p rs w = (w1, rs1, res)"
    by (cases "scrapeProject cfg tr p rs w") auto
  show ?case
  proof (cases res)
    case None
    with run scrapeProject_starved [of cfg tr p rs w] show ?thesis by simp
  next
    case (Some outcome)
    with run Cons.IH Cons.prems show ?thesis by (cases outcome) simp_all
  qed
qed

lemma scrapeEach_all_fail:
  "list_all (\<lambda>r. isl (outcome r)) rs \<Longrightarrow> length ps \<le> length rs \<Longrightarrow>
     snd (snd (scrapeEach cfg tr ps rs w)) = Some ()"
proof (induction ps arbitrary: rs w)
  case Nil
  show ?case by simp
next
  case (Cons p ps)
  then obtain r rs' where rs: "rs = r # rs'" by (cases rs) auto
  with Cons.prems have r: "isl (outcome r)" and rest: "list_all (\<lambda>r. isl (outcome r)) rs'"
    and len: "length ps \<le> length rs'" by auto
  from scrapeProject_fails [OF r, of cfg tr p rs' w] obtain w1 rs1 res where
    run: "scrapeProject cfg tr p rs w = (w1, rs1, Some res)" and rs1: "rs1 = rs \<or> rs1 = rs'"
    unfolding rs by blast
  have ok: "list_all (\<lambda>r. isl (outcome r)) rs1" "length ps \<le> length rs1"
    using rs1 rest len r rs by auto
  show ?case
    using run Cons.IH [OF ok] by (cases res) simp_all
qed

text \<open>
  Claim C9. Whenever \<^verbatim>\<open>scrapeProjects\<close> returns, every collection of the configured list
  has been attempted, in order, whatever the outcome of the earlier ones, and the last thing
  the run does is report the statistics. The run fails to return only while it waits for
  the remote (all replies are used up). In particular, when every reply is an error and
  there is a reply for each collection, the run returns.
\<close>

theorem failures_are_isolated:
  "(snd (snd (scrapeProjects cfg tr rs w)) = Some () \<longrightarrow>
      attempted (since w (fst (scrapeProjects cfg tr rs w))) = projects cfg
      \<and> last (events (fst (scrapeProjects cfg tr rs w)))
          = PrintStats (stats (fst (scrapeProjects cfg tr rs w))))
   \<and> (snd (snd (scrapeProjects cfg tr rs w)) = None \<longrightarrow> fst (snd (scrapeProjects cfg tr rs w)) = [])
   \<and> (list_all (\<lambda>r. isl (outcome r)) rs \<and> length (projects cfg) \<le> length rs \<longrightarrow>
        snd (snd (scrapeProjects cfg tr rs w)) = Some ())"
proof (intro conjI impI)
  obtain w1 rs1 res where run: "scrapeEach cfg tr (projects cfg) rs w = (w1, rs1, res)"
    by (cases "scrapeEach cfg tr (projects cfg) rs w") auto
  {
    assume "snd (snd (scrapeProjects cfg tr rs w)) = Some ()"
    with run have res: "res = Some ()" and fin: "fst (scrapeProjects cfg tr rs w) = printStats w1"
      by (auto simp: scrapeProjects_def split: option.splits)
    from scrapeEach_attempted [of cfg tr "projects cfg" rs w "()"] run res obtain new where
      new: "events w1 = events w @ new" "attempted new = projects cfg" by auto
    have "events (printStats w1) = events w @ (new @ [PrintStats (stats w1)])"
      using new by (simp add: printStats_def emit_def)
    then have "since w (printStats w1) = new @ [PrintStats (stats w1)]" by (rule since_append)
    with new fin show "attempted (since w (fst (scrapeProjects cfg tr rs w))) = projects cfg"
      by simp
    show "last (events (fst (scrapeProjects cfg tr rs w)))
          = PrintStats (stats (fst (scrapeProjects cfg tr rs w)))"
      using fin by (simp add: printStats_def emit_def)
  }
  {
    assume "snd (snd (scrapeProjects cfg tr rs w)) = None"
    with run have "res = None" and "fst (snd (scrapeProjects cfg tr rs w)) = rs1"
      by (auto simp: scrapeProjects_def split: option.splits)
    with scrapeEach_starved [of cfg tr "projects cfg" rs w] run
    show "fst (snd (scrapeProjects cfg tr rs w)) = []" by simp
  }
  {
    assume "list_all (\<lambda>r. isl (outcome r)) rs \<and> length (projects cfg) \<le> length rs"
    with scrapeEach_all_fail [of rs "projects cfg" cfg tr w] run
    show "snd (snd (scrapeProjects cfg tr rs w)) = Some ()"
      by (simp add: scrapeProjects_def)
  }
qed

theorem failures_are_isolated_witness:
  "snd (snd (scrapeProjects (default_config\<lparr>projects := [''A'', ''B'']\<rparr>) Some
              [failure 404, page 1 [7::nat]] (fresh_world ''t''))) = Some ()
   \<and> attempted (since (fresh_world ''t'')
        (fst (scrapeProjects (default_config\<lparr>projects := [''A'', ''B'']\<rparr>) Some
              [failure 404, page 1 [7::nat]] (fresh_world ''t''))))
      = [''A'', ''B'']
   \<and> last (events (fst (scrapeProjects (default_config\<lparr>projects := [''A'', ''B'']\<rparr>) Some
              [failure 404, page 1 [7::nat]] (fresh_world ''t''))))
      = PrintStats \<lparr>issuesTotal = 1, successfulScrapes = 1, failedScrapes = 0, retriedRequests = 1\<rparr>
   \<and> list_all (\<lambda>r. isl (outcome r)) [failure 404, failure 500 :: nat reply]
   \<and> snd (snd (scrapeProjects (default_config\<lparr>projects := [''A'', ''B'']\<rparr>) Some
              [failure 404, failure 500 :: nat reply] (fresh_world ''t''))) = Some ()"
  using failures_are_isolated [where cfg = "default_config\<lparr>projects := [''A'', ''B'']\<rparr>"
      and tr = Some and rs = "[failure 404, page 1 [7::nat]]" and w = "fresh_world ''t''"]
    failures_are_isolated [where cfg = "default_config\<lparr>projects := [''A'', ''B'']\<rparr>"
      and tr = Some and rs = "[failure 404, failure 500 :: nat reply]" and w = "fresh_world ''t'' :: nat world"]
  by (simp add: scrapeProjects_def scrapeProject_def loadCheckpoint_def scrapeLoop.simps
      fetchIssues_def since_def fresh_world_def default_config_def page_def failure_def emit_def
      Let_def saveCheckpoint_def processIssue_def printStats_def initial_stats_def)

section \<open>The backoff schedule\<close>

lemma delays_append [simp]: "delays (xs @ ys) = delays xs @ delays ys"
  by (induction xs rule: delays.induct) simp_all

lemma requests_append [simp]: "requests (xs @ ys) = requests xs + requests ys"
  by (induction xs rule: requests.induct) simp_all

lemma client_get_schedule:
  "rc \<le> retries \<Longrightarrow>
   \<exists>k. rc + k \<le> retries
     \<and> delays (snd (fst (client_get lib base rc outs (st, log))))
         = delays log @ map (exponentialDelay base) [Suc rc..<Suc (rc + k)]
     \<and> requests (snd (fst (client_get lib base rc outs (st, log)))) = requests log + Suc k"
proof (induction outs arbitrary: rc st log)
  case Nil
  then show ?case by (intro exI [of _ 0]) simp
next
  case (Cons out outs)
  obtain st1 v where cl: "classify lib st out = (st1, v)" by (cases "classify lib st out") auto
  show ?case
  proof (cases "v = RETRYABLE \<and> rc < retries")
    case False
    with cl show ?thesis by (intro exI [of _ 0]) (cases v; simp add: Cons.prems)
  next
    case True
    define log1 where "log1 = log @ [Request, Emit_retry (rc + 1), Backoff (exponentialDelay base (rc + 1))]"
    have step: "client_get lib base rc (out # outs) (st, log) = client_get lib base (Suc rc) outs (st1, log1)"
      using True cl by (simp add: log1_def)
    from True have "Suc rc \<le> retries" by simp
    from Cons.IH [OF this, of st1 log1] obtain k where
      k: "Suc rc + k \<le> retries"
        "delays (snd (fst (client_get lib base (Suc rc) outs (st1, log1))))
           = delays log1 @ map (exponentialDelay base) [Suc (Suc rc)..<Suc (Suc rc + k)]"
        "requests (snd (fst (client_get lib base (Suc rc) outs (st1, log1)))) = requests log1 + Suc k"
      by blast
    have "[Suc rc..<Suc (rc + Suc k)] = Suc rc # [Suc (Suc rc)..<Suc (Suc rc + k)]"
      by (simp add: upt_conv_Cons)
    with k step show ?thesis
      by (intro exI [of _ "Suc k"]) (simp add: log1_def)
  qed
qed

lemma classify_verdict:
  "snd (classify lib st out) = snd (classify lib st' out)"
  by (simp add: classify_def retryCondition_def split: bool.splits)

lemma client_get_retryable:
  assumes "\<forall>out\<in>set outs. snd (classify lib st0 out) = RETRYABLE" and "rc \<le> retries"
  shows "delays (snd (fst (client_get lib base rc outs (st, log))))
           = delays log @ map (exponentialDelay base) [Suc rc..<Suc (rc + min (length outs) (retries - rc))]
       \<and> requests (snd (fst (client_get lib base rc outs (st, log))))
           = requests log + Suc (min (length outs) (retries - rc))
       \<and> snd (client_get lib base rc outs (st, log))
           = (if retries - rc < length outs then Some (Inl (error_of (outs ! (retries - rc)))) else None)"
  using assms
proof (induction outs arbitrary: rc st log)
  case Nil
  show ?case by simp
next
  case (Cons out outs)
  from Cons.prems(1) have "snd (classify lib st out) = RETRYABLE"
    using classify_verdict [of lib st out st0] by simp
  then obtain st1 where cl: "classify lib st out = (st1, RETRYABLE)"
    by (cases "classify lib st out") auto
  show ?case
  proof (cases "rc < retries")
    case False
    with Cons.prems(2) have "rc = retries" by simp
    with cl show ?thesis by simp
  next
    case True
    define log1 where "log1 = log @ [Request, Emit_retry (rc + 1), Backoff (exponentialDelay base (rc + 1))]"
    have step: "client_get lib base rc (out # outs) (st, log) = client_get lib base (Suc rc) outs (st1, log1)"
      using True cl by (simp add: log1_def)
    from True have le: "Suc rc \<le> retries" by simp
    from Cons.prems(1) have rest: "\<forall>out\<in>set outs. snd (classify lib st0 out) = RETRYABLE" by simp
    note IH = Cons.IH [OF rest le, of st1 log1]
    have suc: "retries - rc = Suc (retries - Suc rc)" using True by simp
    then have m: "min (length (out # outs)) (retries - rc) = Suc (min (length outs) (retries - Suc rc))"
      by simp
    have upt: "[Suc rc..<Suc (rc + Suc (min (length outs) (retries - Suc rc)))]
        = Suc rc # [Suc (Suc rc)..<Suc (Suc rc + min (length outs) (retries - Suc rc))]"
    proof -
      have e: "Suc (Suc rc + min (length outs) (retries - Suc rc))
          = Suc (rc + Suc (min (length outs) (retries - Suc rc)))" by simp
      show ?thesis unfolding e by (rule upt_conv_Cons) simp
    qed
    have nth: "(out # outs) ! (retries - rc) = outs ! (retries - Suc rc)"
      unfolding suc by simp
    have lt: "(retries - rc < length (out # outs)) = (retries - Suc rc < length outs)"
      unfolding suc by simp
    show ?thesis
      unfolding step m upt nth lt using IH by (simp add: log1_def)
  qed
qed

text \<open>
  Claim C4, as the configuration has it. For every sequence of retryable failures, the wait
  before retry \<open>n\<close> (counted from 1) is \<open>base * 2^(n-1)\<close>, and five retries follow the
  first request at most: after \<open>m\<close> failures in a row \<open>min m 5\<close> retries have been made, and
  the sixth failure is surfaced. With base 2 and five or more failures the waits are exactly
  2, 4, 8, 16, 32, the last of them before the sixth request, which is made. Whatever the
  outcomes, a seventh request never is.
\<close>

theorem backoff_schedule:
  assumes "\<forall>out\<in>set outs. snd (classify lib initial_stats out) = RETRYABLE"
  shows "delays (snd (fst (client_get lib base 0 outs (st, []))))
           = map (\<lambda>n. base * 2 ^ (n - 1)) [1..<Suc (min (length outs) 5)]
     \<and> requests (snd (fst (client_get lib base 0 outs (st, [])))) = Suc (min (length outs) 5)
     \<and> snd (client_get lib base 0 outs (st, []))
         = (if 5 < length outs then Some (Inl (error_of (outs ! 5))) else None)
     \<and> (5 \<le> length outs \<longrightarrow>
          delays (snd (fst (client_get lib 2 0 outs (st, [])))) = [2, 4, 8, 16, 32]
          \<and> requests (snd (fst (client_get lib 2 0 outs (st, [])))) = 6)
     \<and> requests (snd (fst (client_get lib base 0 outs' (st, [])))) \<le> 6"
proof -
  have fn: "exponentialDelay b = (\<lambda>n. b * 2 ^ (n - 1))" for b
    by (rule ext) (simp add: exponentialDelay_def)
  note sched = client_get_retryable [OF assms, of 0 _ st "[]"]
  have gen: "delays (snd (fst (client_get lib base 0 outs (st, []))))
           = map (\<lambda>n. base * 2 ^ (n - 1)) [1..<Suc (min (length outs) 5)]
     \<and> requests (snd (fst (client_get lib base 0 outs (st, [])))) = Suc (min (length outs) 5)
     \<and> snd (client_get lib base 0 outs (st, []))
         = (if 5 < length outs then Some (Inl (error_of (outs ! 5))) else None)"
    using sched [of base] by (simp add: retries_def fn)
  have five: "map (exponentialDelay 2) [Suc 0..<6] = [2, 4, 8, 16, 32]"
    by code_simp
  have at5: "delays (snd (fst (client_get lib 2 0 outs (st, [])))) = [2, 4, 8, 16, 32]
      \<and> requests (snd (fst (client_get lib 2 0 outs (st, [])))) = 6" if "5 \<le> length outs"
  proof -
    from that have m: "min (length outs) (retries - 0) = 5" by (simp add: retries_def)
    from sched [of 2] show ?thesis unfolding m by (simp add: five)
  qed
  from client_get_schedule [of 0 lib base outs' st "[]"] obtain k where
    "k \<le> retries" "requests (snd (fst (client_get lib base 0 outs' (st, [])))) = Suc k" by auto
  then have bound: "requests (snd (fst (client_get lib base 0 outs' (st, [])))) \<le> 6"
    by (simp add: retries_def)
  from gen at5 bound show ?thesis by blast
qed

theorem backoff_schedule_witness:
  "snd (classify (\<lambda>e. response_status e = None) initial_stats (Status 429)) = RETRYABLE
   \<and> snd (classify (\<lambda>e. response_status e = None) initial_stats (Transport ''ECONNRESET'')) = RETRYABLE
   \<and> snd (classify (\<lambda>e. response_status e = None) initial_stats (Status 500)) = RETRYABLE
   \<and> snd (classify (\<lambda>e. response_status e = None) initial_stats (Status 503)) = RETRYABLE
   \<and> snd (classify (\<lambda>e. response_status e = None) initial_stats (Status 502)) = RETRYABLE
   \<and> snd (classify (\<lambda>e. response_status e = None) initial_stats (Status 504)) = RETRYABLE
   \<and> delays (snd (fst (client_get (\<lambda>e. response_status e = None) 2 0
        [Status 429, Transport ''ECONNRESET'', Status 500, Status 503, Status 502, Status 504]
        (initial_stats, [])))) = [2, 4, 8, 16, 32]
   \<and> requests (snd (fst (client_get (\<lambda>e. response_status e = None) 2 0
        [Status 429, Transport ''ECONNRESET'', Status 500, Status 503, Status 502, Status 504]
        (initial_stats, [])))) = 6
   \<and> snd (client_get (\<lambda>e. response_status e = None) 2 0
        [Status 429, Transport ''ECONNRESET'', Status 500, Status 503, Status 502, Status 504]
        (initial_stats, [])) = Some (Inl (error_of (Status 504)))"
proof -
  have h: "\<forall>out\<in>set [Status 429, Transport ''ECONNRESET'', Status 500, Status 503, Status 502, Status 504].
       snd (classify (\<lambda>e. response_status e = None) initial_stats out) = RETRYABLE"
    by (simp add: classify_def retryCondition_def)
  from backoff_schedule [OF h, of 2 initial_stats "[]"] h show ?thesis by simp
qed

text \<open>
  Claim C4 as stated fails in its last part: after five retryable failures the sixth request
  is made, 32 time units after the fifth.
\<close>

theorem sixth_attempt_occurs:
  "requests (snd (fst (client_get (\<lambda>e. False) 2 0
       [Status 503, Status 503, Status 503, Status 503, Status 503, Status 503]
       (initial_stats, [])))) = 6
   \<and> delays (snd (fst (client_get (\<lambda>e. False) 2 0
       [Status 503, Status 503, Status 503, Status 503, Status 503, Status 503]
       (initial_stats, [])))) = [2, 4, 8, 16, 32]"
  by (simp add: classify_def retryCondition_def retries_def exponentialDelay_def initial_stats_def)

section \<open>The concurrency gate preserves the order of the results\<close>

declare runBounded.simps [simp del]

lemma processAll_eq:
  "processAll tr st xs
     = (st\<lparr>issuesTotal := issuesTotal st + length (filter (\<lambda>x. tr x \<noteq> None) xs)\<rparr>, map tr xs)"
proof (induction xs arbitrary: st)
  case Nil
  show ?case by simp
next
  case (Cons x xs)
  show ?case by (cases "tr x") (simp_all add: processIssue_def Cons.IH)
qed

lemma sink_writeAll:
  "sink (writeAll f ds w) f = sink w f @ List.map_filter (\<lambda>d. d) ds"
  by (induction f ds w rule: writeAll.induct) (simp_all add: List.map_filter_simps)

lemma count_settled:
  assumes "distinct run" "j \<in> set run" "j < s"
  shows "length (filter (\<lambda>i. i \<notin> set (remove1 j run) \<and> P i) [0..<s])
           = length (filter (\<lambda>i. i \<notin> set run \<and> P i) [0..<s]) + (if P j then 1 else 0)"
proof -
  let ?A = "{i. i \<notin> set run \<and> P i} \<inter> set [0..<s]"
  have set_eq: "{i. i \<notin> set (remove1 j run) \<and> P i} \<inter> set [0..<s] = (if P j then insert j ?A else ?A)"
    using assms by auto
  have "j \<notin> ?A" using assms by simp
  moreover have "finite ?A" by simp
  ultimately have "card (if P j then insert j ?A else ?A) = card ?A + (if P j then 1 else 0)"
    by simp
  then show ?thesis
    by (simp only: distinct_length_filter [OF distinct_upt] set_eq)
qed

lemma runBounded_settles:
  assumes "1 \<le> m"
    and "started g \<le> length xs" and "distinct (running g)"
    and "set (running g) \<subseteq> {..<started g}"
    and "\<forall>i. settled g i = (if i < started g \<and> i \<notin> set (running g) then Some (tr (xs ! i)) else None)"
    and "gstats g = st\<lparr>issuesTotal := issuesTotal st
            + length (filter (\<lambda>i. i \<notin> set (running g) \<and> tr (xs ! i) \<noteq> None) [0..<started g])\<rparr>"
  shows "(\<forall>i. settled (runBounded m pick tr xs t g) i = (if i < length xs then Some (tr (xs ! i)) else None))
     \<and> gstats (runBounded m pick tr xs t g)
         = st\<lparr>issuesTotal := issuesTotal st + length (filter (\<lambda>i. tr (xs ! i) \<noteq> None) [0..<length xs])\<rparr>"
  using assms
proof (induction m pick tr xs t g rule: runBounded.induct)
  case (1 m pick tr xs t g)
  show ?case
  proof (cases "started g < length xs \<and> length (running g) < m")
    case True
    define g' where "g' = g\<lparr>started := started g + 1, running := running g @ [started g]\<rparr>"
    have step: "runBounded m pick tr xs t g = runBounded m pick tr xs (t + 1) g'"
      using True by (subst runBounded.simps) (simp add: g'_def)
    have fresh: "started g \<notin> set (running g)" using "1.prems"(4) by auto
    have a: "started g' \<le> length xs" "distinct (running g')" "set (running g') \<subseteq> {..<started g'}"
      using True "1.prems"(3,4) fresh by (auto simp: g'_def)
    have b: "\<forall>i. settled g' i = (if i < started g' \<and> i \<notin> set (running g') then Some (tr (xs ! i)) else None)"
      using "1.prems"(5) by (auto simp: g'_def)
    have c: "gstats g' = st\<lparr>issuesTotal := issuesTotal st
            + length (filter (\<lambda>i. i \<notin> set (running g') \<and> tr (xs ! i) \<noteq> None) [0..<started g'])\<rparr>"
    proof -
      have "filter (\<lambda>i. i \<notin> set (running g') \<and> tr (xs ! i) \<noteq> None) [0..<started g']
          = filter (\<lambda>i. i \<notin> set (running g) \<and> tr (xs ! i) \<noteq> None) [0..<started g]"
        by (auto simp: g'_def intro: filter_cong)
      then show ?thesis using "1.prems"(6) by (simp add: g'_def)
    qed
    from "1.IH"(1) [OF True, folded g'_def, OF "1.prems"(1) a b c] step show ?thesis by simp
  next
    case False
    show ?thesis
    proof (cases "running g = []")
      case True
      have "runBounded m pick tr xs t g = g"
        by (subst runBounded.simps) (simp only: False if_False, simp add: True)
      moreover have "started g = length xs"
        using True False "1.prems"(1,2) by simp
      ultimately show ?thesis using True "1.prems"(5,6) by simp
    next
      case nonempty: False
      define j where "j = running g ! (pick t mod length (running g))"
      obtain st1 r where pi: "(st1, r) = processIssue tr (gstats g) (xs ! j)"
        by (metis surj_pair)
      define g' where "g' = g\<lparr>running := remove1 j (running g),
           settled := (settled g)(j \<mapsto> r), gstats := st1\<rparr>"
      have step: "runBounded m pick tr xs t g = runBounded m pick tr xs (t + 1) g'"
        by (subst runBounded.simps)
           (simp only: False if_False,
            simp add: nonempty g'_def j_def [symmetric] pi [symmetric] Let_def)
      have jin: "j \<in> set (running g)" using nonempty by (simp add: j_def)
      then have jlt: "j < started g" using "1.prems"(4) by auto
      have res: "r = tr (xs ! j)"
        and st1: "st1 = (if tr (xs ! j) = None then gstats g
                         else (gstats g)\<lparr>issuesTotal := issuesTotal (gstats g) + 1\<rparr>)"
        using pi by (auto simp: processIssue_def split: option.splits)
      have a: "started g' \<le> length xs" "distinct (running g')" "set (running g') \<subseteq> {..<started g'}"
        using "1.prems"(2,3,4) by (auto simp: g'_def)
      have b: "\<forall>i. settled g' i = (if i < started g' \<and> i \<notin> set (running g') then Some (tr (xs ! i)) else None)"
        using "1.prems"(3,5) jin jlt res by (auto simp: g'_def)
      have c: "gstats g' = st\<lparr>issuesTotal := issuesTotal st
            + length (filter (\<lambda>i. i \<notin> set (running g') \<and> tr (xs ! i) \<noteq> None) [0..<started g'])\<rparr>"
        using count_settled [OF "1.prems"(3) jin jlt, of "\<lambda>i. tr (xs ! i) \<noteq> None"] "1.prems"(6)
        by (simp add: g'_def st1)
      from "1.IH"(2) [OF False nonempty j_def refl pi, folded g'_def, OF "1.prems"(1) a b c] step
      show ?thesis by simp
    qed
  qed
qed

lemma gated_eq:
  fixes tr :: "'i \<Rightarrow> 'd option"
  assumes "1 \<le> m"
  shows "gated m pick tr st xs = Some (processAll tr st xs)"
proof -
  define g0 :: "'d gate" where "g0 = \<lparr>started = 0, running = [], settled = Map.empty, gstats = st\<rparr>"
  have fin: "(\<forall>i. settled (runBounded m pick tr xs 0 g0) i = (if i < length xs then Some (tr (xs ! i)) else None))
     \<and> gstats (runBounded m pick tr xs 0 g0)
         = st\<lparr>issuesTotal := issuesTotal st + length (filter (\<lambda>i. tr (xs ! i) \<noteq> None) [0..<length xs])\<rparr>"
    by (rule runBounded_settles [OF assms]) (simp_all add: g0_def)
  have cnt: "length (filter (\<lambda>i. tr (xs ! i) \<noteq> None) [0..<length xs])
      = length (filter (\<lambda>x. tr x \<noteq> None) xs)"
  proof -
    have "filter (\<lambda>x. tr x \<noteq> None) (map ((!) xs) [0..<length xs])
        = map ((!) xs) (filter (\<lambda>i. tr (xs ! i) \<noteq> None) [0..<length xs])"
      by (simp add: filter_map comp_def)
    then have "length (filter (\<lambda>x. tr x \<noteq> None) (map ((!) xs) [0..<length xs]))
        = length (filter (\<lambda>i. tr (xs ! i) \<noteq> None) [0..<length xs])" by simp
    then show ?thesis by (simp add: map_nth)
  qed
  from fin have slot: "settled (runBounded m pick tr xs 0 g0) i
      = (if i < length xs then Some (tr (xs ! i)) else None)" for i
    by blast
  from fin have st: "gstats (runBounded m pick tr xs 0 g0)
      = st\<lparr>issuesTotal := issuesTotal st + length (filter (\<lambda>x. tr x \<noteq> None) xs)\<rparr>"
    by (simp only: cnt)
  have res: "map (\<lambda>i. the (settled (runBounded m pick tr xs 0 g0) i)) [0..<length xs] = map tr xs"
    by (rule nth_equalityI) (simp_all add: slot)
  have all: "list_all (\<lambda>i. settled (runBounded m pick tr xs 0 g0) i \<noteq> None) [0..<length xs]"
    by (simp add: list_all_iff slot)
  show ?thesis
    unfolding gated_def g0_def [symmetric] Let_def
    by (simp only: all res st processAll_eq if_True)
qed

text \<open>
  Claim C8. For a page \<open>xs\<close> and every bound \<open>m\<close> from 1 to the length of the page, whatever
  the order in which the tasks in flight complete, the gated run resolves to the same
  statistics and the same list of results as the run with bound \<open>length xs\<close>, namely the
  results of the transform in the order of the records; and writing them appends to the
  output file the documents of the records that transformed, in the order of the records.
\<close>

theorem gate_preserves_order:
  assumes "1 \<le> m" and "m \<le> length xs"
  shows "gated m pick tr st xs = gated (length xs) pick' tr st xs
     \<and> gated m pick tr st xs = Some (processAll tr st xs)
     \<and> snd (processAll tr st xs) = map tr xs
     \<and> sink (writeAll f (snd (processAll tr st xs)) w) f = sink w f @ List.map_filter tr xs"
proof -
  from assms have n: "1 \<le> length xs" by simp
  have "List.map_filter (\<lambda>d. d) (map tr xs) = List.map_filter tr xs"
    by (simp add: List.map_filter_def filter_map comp_def)
  then show ?thesis
    by (simp add: gated_eq [OF assms(1)] gated_eq [OF n] sink_writeAll processAll_eq)
qed

theorem gate_preserves_order_witness:
  "(1::nat) \<le> 2 \<and> 2 \<le> length [10, 11, 12 :: nat]
   \<and> gated 2 (\<lambda>t. t) (\<lambda>x. if x = 11 then None else Some (2 * x)) initial_stats [10, 11, 12 :: nat]
       = gated (length [10, 11, 12 :: nat]) (\<lambda>t. 0) (\<lambda>x. if x = 11 then None else Some (2 * x))
           initial_stats [10, 11, 12 :: nat]
   \<and> gated 2 (\<lambda>t. t) (\<lambda>x. if x = 11 then None else Some (2 * x)) initial_stats [10, 11, 12 :: nat]
       = Some (\<lparr>issuesTotal = 2, successfulScrapes = 0, failedScrapes = 0, retriedRequests = 0\<rparr>,
               [Some 20, None, Some 24])
   \<and> sink (writeAll ''f'' [Some 20, None, Some 24] (fresh_world ''t'' :: nat world)) ''f'' = [20, 24]"
proof -
  have h: "(1::nat) \<le> 2" "2 \<le> length [10, 11, 12 :: nat]" by simp_all
  have pa: "processAll (\<lambda>x. if x = 11 then None else Some (2 * x)) initial_stats [10, 11, 12 :: nat]
      = (\<lparr>issuesTotal = 2, successfulScrapes = 0, failedScrapes = 0, retriedRequests = 0\<rparr>,
         [Some 20, None, Some 24])"
    by (simp add: processIssue_def initial_stats_def)
  note t = gate_preserves_order [OF h, of "\<lambda>t. t" "\<lambda>x. if x = 11 then None else Some (2 * x)"
      initial_stats "\<lambda>t. 0" "''f''" "fresh_world ''t'' :: nat world"]
  have a: "gated 2 (\<lambda>t. t) (\<lambda>x. if x = 11 then None else Some (2 * x)) initial_stats [10, 11, 12 :: nat]
       = gated (length [10, 11, 12 :: nat]) (\<lambda>t. 0) (\<lambda>x. if x = 11 then None else Some (2 * x))
           initial_stats [10, 11, 12 :: nat]"
    using t by (rule conjunct1)
  have b: "gated 2 (\<lambda>t. t) (\<lambda>x. if x = 11 then None else Some (2 * x)) initial_stats [10, 11, 12 :: nat]
       = Some (\<lparr>issuesTotal = 2, successfulScrapes = 0, failedScrapes = 0, retriedRequests = 0\<rparr>,
               [Some 20, None, Some 24])"
    using t unfolding pa by blast
  have c: "sink (writeAll ''f'' [Some 20, None, Some 24] (fresh_world ''t'' :: nat world)) ''f''
       = sink (fresh_world ''t'' :: nat world) ''f''
           @ List.map_filter (\<lambda>x. if x = 11 then None else Some (2 * x)) [10, 11, 12 :: nat]"
    using t unfolding pa snd_conv by blast
  have d: "sink (writeAll ''f'' [Some 20, None, Some 24] (fresh_world ''t'' :: nat world)) ''f'' = [20, 24]"
    unfolding c by (simp add: fresh_world_def List.map_filter_simps)
  from h a b d show ?thesis by blast
qed

end
